theory Spec2Isabelle
  imports Main "HOL-Library.Word" "HOL-Library.AList"
begin

text \<open>
  A model of opmodbus, a Modbus client that merges requests for adjacent registers into
  single calls of function 3 (read holding registers) and function 16 (write multiple
  registers): the operation model and its validation, the merge optimizer, the
  differential write filter, the flat byte buffer that reassembles merged reads, and the
  sequential executor over an abstract transport.  The definitions follow the Go source
  function by function; the theorems settle the claims C1 to C10 about it.
\<close>

section \<open>Operation model (optimization.go)\<close>

text \<open>
  Go's \<open>uint16\<close> is a 16-bit word: \<open>+\<close> wraps modulo 65536 and comparisons are
  unsigned.  The byte slices of the read path (transport results, the flat buffer and
  what is cut from it) are lists of 8-bit words; a nil slice and an empty slice are both
  the empty list, since the code only reads their length and contents.  The payloads of
  writes, which the optimizer appends to, are slices of a memory (next section).
\<close>

type_synonym uint16 = "16 word"
type_synonym byte = "8 word"

definition maxFunc16Quantity :: uint16 where
  "maxFunc16Quantity = 123"

definition maxFunc3Quantity :: uint16 where
  "maxFunc3Quantity = 2047"

record readOp =
  register :: uint16
  quantity :: uint16

subsection \<open>Byte slices in memory\<close>

text \<open>
  A Go slice is a pointer into a backing array, a length and a capacity; two slices may
  share one array.  The memory maps addresses to bytes; \<open>brk\<close> is the first address not
  yet allocated.  The nil slice has length and capacity 0.

  \<open>append(s, t...)\<close>: when \<open>len(s) + len(t)\<close> fits the capacity of \<open>s\<close>, the bytes of \<open>t\<close>
  are written behind \<open>s\<close> into its backing array and the result shares that array;
  otherwise a new array is allocated and both are copied there.  The language leaves the
  capacity of the new array to the runtime, as long as the result fits: \<open>grow\<close> is the
  runtime's choice, given the old capacity and the length needed.  The bytes of \<open>t\<close> are
  read before anything is written, as \<open>memmove\<close> does.
\<close>

record memory =
  cells :: "nat \<Rightarrow> byte"
  brk :: nat
  grow :: "nat \<Rightarrow> nat \<Rightarrow> nat"

record slice =
  ptr :: nat
  len :: nat
  cap :: nat

definition nil :: slice where
  "nil = \<lparr>ptr = 0, len = 0, cap = 0\<rparr>"

definition load :: "memory \<Rightarrow> slice \<Rightarrow> byte list" where
  "load m s = map (cells m) [ptr s ..< ptr s + len s]"

definition store_at :: "nat \<Rightarrow> byte list \<Rightarrow> (nat \<Rightarrow> byte) \<Rightarrow> nat \<Rightarrow> byte" where
  "store_at a bs f = (\<lambda>i. if a \<le> i \<and> i < a + length bs then bs ! (i - a) else f i)"

definition go_append :: "memory \<Rightarrow> slice \<Rightarrow> slice \<Rightarrow> slice \<times> memory" where
  "go_append m s t =
     (if len s + len t \<le> cap s
      then (s\<lparr>len := len s + len t\<rparr>,
            m\<lparr>cells := store_at (ptr s + len s) (load m t) (cells m)\<rparr>)
      else let n = len s + len t;
               c = max n (grow m (cap s) n)
           in (\<lparr>ptr = brk m, len = n, cap = c\<rparr>,
               m\<lparr>cells := store_at (brk m) (load m s @ load m t) (cells m),
                 brk := brk m + c\<rparr>))"

subsection \<open>Operations\<close>

text \<open>
  \<open>writeOp\<close> has the two fields of \<open>readOp\<close> and the payload; it is declared as an
  extension so that both structs share the field names of the source.
\<close>

record writeOp = readOp +
  "value" :: slice

text \<open>
  Errors are values.  The sentinels \<open>ErrTooManyRegisters\<close>, \<open>ErrOddByteNumber\<close> and
  \<open>ErrInvalidInput\<close> carry the number their message prints; the wrappers made with
  \<open>fmt.Errorf\<close> carry the position and register they print and the error they wrap.  A
  transport error is opaque.  \<open>Panic\<close> is a call of \<open>panic\<close> with an error, and
  \<open>SliceBoundsOutOfRange\<close> the run-time panic of a slice expression.

  \<open>readOp.validate\<close> and \<open>writeOp.validate\<close>: \<open>None\<close> is Go's nil error.
\<close>

datatype error =
    ErrTooManyRegisters nat
  | ErrOddByteNumber
  | ErrInvalidInput nat
  | TransportError string
  | ReadRequestError nat uint16 error
  | WriteRequestError nat uint16 error
  | ReadOpError uint16 error
  | WriteError uint16 error
  | Panic error
  | SliceBoundsOutOfRange

definition readOp_validate :: "readOp \<Rightarrow> error option" where
  "readOp_validate r =
     (if quantity r > maxFunc3Quantity then Some (ErrTooManyRegisters (unat maxFunc3Quantity))
      else None)"

definition writeOp_validate :: "writeOp \<Rightarrow> error option" where
  "writeOp_validate w =
     (if quantity w > maxFunc16Quantity then Some (ErrTooManyRegisters (unat maxFunc16Quantity))
      else None)"

section \<open>Merge optimizer (optimization.go)\<close>

text \<open>
  The inner loop \<open>for j := i + 1; j < len(preopt); j++\<close> of \<open>optimizeRead\<close>.  Its
  list argument holds \<open>preopt[j]\<close> for the values of \<open>j\<close> still to come; \<open>op\<close> and the
  outer index \<open>i\<close> are the two variables the body assigns.  The loop has no
  \<open>break\<close>: every later element is inspected, and each merge adds one to \<open>i\<close>.
\<close>

fun innerRead :: "readOp \<Rightarrow> nat \<Rightarrow> readOp list \<Rightarrow> readOp \<times> nat" where
  "innerRead op i [] = (op, i)"
| "innerRead op i (p # ps) =
     (if register p = register op + quantity op \<and>
         quantity op + quantity p \<le> maxFunc3Quantity
      then innerRead (op\<lparr>quantity := quantity op + quantity p\<rparr>) (i + 1) ps
      else innerRead op i ps)"

lemma innerRead_index: "innerRead op i ps = (op', i') \<Longrightarrow> i \<le> i'"
  by (induction ps arbitrary: op i) (auto split: if_splits dest: Suc_leD)

text \<open>
  The outer loop \<open>for i := 0; i < len(preopt); i++\<close>: \<open>op := preopt[i]\<close>, the inner
  loop over the elements after index \<open>i\<close>, \<open>opt = append(opt, op)\<close>, and the loop's own
  \<open>i++\<close> applied to the index the inner loop left behind.
\<close>

function outerRead :: "readOp list \<Rightarrow> nat \<Rightarrow> readOp list \<Rightarrow> readOp list" where
  "outerRead preopt i opt =
     (if i < length preopt
      then (case innerRead (preopt ! i) i (drop (i + 1) preopt) of
              (op, i') \<Rightarrow> outerRead preopt (i' + 1) (opt @ [op]))
      else opt)"
  by pat_completeness auto
termination
  by (relation "measure (\<lambda>(preopt, i, opt). length preopt - i)")
     (auto dest!: innerRead_index [OF sym])

declare outerRead.simps [simp del]

text \<open>
  \<open>sort.Slice\<close> with the comparison \<open>preopt[i].register < preopt[j].register\<close> orders
  the copy by register.  Go does not promise an order among elements with equal
  registers; the model uses the stable insertion sort \<open>sort_key\<close>, which is the unique
  result whenever the registers are distinct.
\<close>

definition optimizeRead :: "readOp list \<Rightarrow> readOp list" where
  "optimizeRead r = outerRead (sort_key register r) 0 []"

text \<open>
  \<open>optimizeWrite\<close> is the same pair of loops with the ceiling of function 16.  A merge
  also appends the payload, \<open>op.value = append(op.value, preopt[j].value...)\<close>, which may
  write to memory; the loops pass the memory along and return it.
\<close>

fun innerWrite ::
  "writeOp \<Rightarrow> nat \<Rightarrow> writeOp list \<Rightarrow> memory \<Rightarrow> writeOp \<times> nat \<times> memory" where
  "innerWrite op i [] m = (op, i, m)"
| "innerWrite op i (p # ps) m =
     (if register p = register op + quantity op \<and>
         quantity op + quantity p \<le> maxFunc16Quantity
      then (case go_append m (value op) (value p) of
              (v, m') \<Rightarrow>
                innerWrite (op\<lparr>quantity := quantity op + quantity p, value := v\<rparr>)
                  (i + 1) ps m')
      else innerWrite op i ps m)"

lemma innerWrite_index: "innerWrite op i ps m = (op', i', m') \<Longrightarrow> i \<le> i'"
  by (induction ps arbitrary: op i m) (auto split: if_splits prod.splits dest: Suc_leD)

function outerWrite ::
  "writeOp list \<Rightarrow> nat \<Rightarrow> writeOp list \<Rightarrow> memory \<Rightarrow> writeOp list \<times> memory" where
  "outerWrite preopt i opt m =
     (if i < length preopt
      then (case innerWrite (preopt ! i) i (drop (i + 1) preopt) m of
              (op, i', m') \<Rightarrow> outerWrite preopt (i' + 1) (opt @ [op]) m')
      else (opt, m))"
  by pat_completeness auto
termination
  by (relation "measure (\<lambda>(preopt, i, opt, m). length preopt - i)")
     (auto dest!: innerWrite_index [OF sym])

declare outerWrite.simps [simp del]

definition optimizeWrite :: "writeOp list \<Rightarrow> memory \<Rightarrow> writeOp list \<times> memory" where
  "optimizeWrite w m = outerWrite (sort_key register w) 0 [] m"

section \<open>Typed requests and their conversion (types/common.go, optimization.go)\<close>

text \<open>
  The interface \<open>types.Value\<close> has the single method \<open>Bytes()\<close>, so a value is modelled
  by what \<open>Bytes()\<close> returns (the same on every call, and without writing to memory);
  interface values are not nil.  For the values the client only constructs or compares,
  the results of reads and the snapshot, that is the list of bytes.  For the value of a
  write request, whose slice is handed to the optimizer, it is the slice itself.  A
  \<open>Bytes()\<close> that allocates, as those of the built-in types do, returns a slice without
  spare capacity that shares its array with nothing: such a value is the slice of an
  array that holds its bytes.  \<open>types.Type\<close> is its two methods.  The interfaces \<open>Read\<close>
  and \<open>Write\<close> share the method \<open>Register()\<close>; they are records over a common base
  holding it.
\<close>

datatype 'b Value = FromBytes (Bytes: 'b)

record Type =
  Size :: uint16
  Converter :: "byte list \<Rightarrow> error + byte list Value"

record Request =
  Register :: uint16

record Read = Request +
  Type :: Type

record Write = Request +
  Value :: "slice Value"

text \<open>
  \<open>types.Float32\<close> and \<open>types.Float32CDAB\<close> (types/float32.go) occupy two registers; their
  converters reject every input whose length is not 4.  The floating-point value itself
  is kept as its four bytes.
\<close>

definition Float32Type :: Type where
  "Float32Type =
     \<lparr>Size = 2,
      Converter = (\<lambda>b. if length b \<noteq> 4 then Inl (ErrInvalidInput (length b))
                         else Inr (FromBytes b))\<rparr>"

text \<open>
  The four constructors of optimization.go return the operation together with the result
  of its validation, as the Go functions do.  \<open>uint16(len(v) / 2)\<close> truncates the length
  to 16 bits.
\<close>

definition convertReadOp :: "Read \<Rightarrow> readOp \<times> error option" where
  "convertReadOp r =
     (let ro = \<lparr>register = Register r, quantity = Size (Type r)\<rparr> in (ro, readOp_validate ro))"

definition convertWriteOp :: "Write \<Rightarrow> writeOp \<times> error option" where
  "convertWriteOp w =
     (let wo = \<lparr>register = Register w,
                quantity = word_of_nat (len (Bytes (Value w)) div 2),
                value = Bytes (Value w)\<rparr>
      in (wo, writeOp_validate wo))"

definition newReadOp :: "uint16 \<Rightarrow> uint16 \<Rightarrow> readOp \<times> error option" where
  "newReadOp r q = (let ro = \<lparr>register = r, quantity = q\<rparr> in (ro, readOp_validate ro))"

definition newWriteOp :: "uint16 \<Rightarrow> slice \<Rightarrow> writeOp \<times> error option" where
  "newWriteOp r v =
     (let wo = \<lparr>register = r, quantity = word_of_nat (len v div 2), value = v\<rparr>
      in (wo, writeOp_validate wo))"

section \<open>Flat address space (internal/containers/slice.go)\<close>

text \<open>
  Go's \<open>int\<close> is a 64-bit two's-complement integer on 64-bit platforms (on 32-bit
  platforms the same happens at 32 bits).  Offsets and sizes are modelled as \<open>int\<close>, taken
  from \<open>-2^63\<close> up to \<open>2^63 - 1\<close>; the one addition the code performs on them,
  \<open>offset+size\<close>, wraps around as Go's does.  A slice expression \<open>s[lo:hi]\<close> panics unless
  \<open>0 \<le> lo \<le> hi \<le> cap(s)\<close>; the slices here come from \<open>make\<close>, so their capacity is
  their length.  A panic is the error \<open>SliceBoundsOutOfRange\<close>.
\<close>

definition go_int_add :: "int \<Rightarrow> int \<Rightarrow> int" where
  "go_int_add a b = signed_take_bit 63 (a + b)"

definition NewSlice :: "nat \<Rightarrow> byte list" where
  "NewSlice n = replicate n 0"

text \<open>
  \<open>Set\<close> returns the buffer after the copy together with the count Go's \<open>copy\<close> reports:
  \<open>copy(dst, src)\<close> moves \<open>min(len(dst), len(src))\<close> elements.
\<close>

definition Slice_Set :: "byte list \<Rightarrow> int \<Rightarrow> byte list \<Rightarrow> byte list \<times> int" where
  "Slice_Set s offset data =
     (if int (length s) \<le> offset \<or> offset < 0 then (s, 0)
      else let n = min (length s - nat offset) (length data)
           in (take (nat offset) s @ take n data @ drop (nat offset + n) s, int n))"

definition slice_expr :: "byte list \<Rightarrow> int \<Rightarrow> int \<Rightarrow> error + byte list" where
  "slice_expr s lo hi =
     (if 0 \<le> lo \<and> lo \<le> hi \<and> hi \<le> int (length s)
      then Inr (take (nat (hi - lo)) (drop (nat lo) s))
      else Inl SliceBoundsOutOfRange)"

definition Slice_Get :: "byte list \<Rightarrow> int \<Rightarrow> int \<Rightarrow> error + byte list" where
  "Slice_Get s offset sz =
     (if offset < 0 \<or> sz < 0 then Inr []
      else if int (length s) \<le> offset then Inr []
      else if int (length s) \<le> go_int_add offset sz then slice_expr s offset (int (length s))
      else slice_expr s offset (go_int_add offset sz))"

section \<open>Batching executor and client (src/unnamed/part_002)\<close>

text \<open>
  The transport is the embedded \<open>modbus.Client\<close>; the two methods the client calls are
  fields of a record.  Each call takes the state of the link and the device and returns
  the new state, so the sequence of calls made is visible in the result.  A call returns
  either an error or the response bytes; a write is handed the bytes its payload slice
  holds at the time of the call.  The mutex is not modelled: one call runs at a time.
\<close>

record 's Client =
  ReadHoldingRegisters :: "uint16 \<Rightarrow> uint16 \<Rightarrow> 's \<Rightarrow> (error + byte list) \<times> 's"
  WriteMultipleRegisters ::
    "uint16 \<Rightarrow> uint16 \<Rightarrow> byte list \<Rightarrow> 's \<Rightarrow> (error + byte list) \<times> 's"

definition Client_read :: "'s Client \<Rightarrow> readOp \<Rightarrow> 's \<Rightarrow> (error + byte list) \<times> 's" where
  "Client_read c r s = ReadHoldingRegisters c (register r) (quantity r) s"

definition Client_write :: "'s Client \<Rightarrow> writeOp \<Rightarrow> memory \<Rightarrow> 's \<Rightarrow> error option \<times> 's" where
  "Client_write c w m s =
     (case WriteMultipleRegisters c (register w) (quantity w) (load m (value w)) s of
        (Inl err, s') \<Rightarrow> (Some err, s')
      | (Inr b, s') \<Rightarrow> (None, s'))"

text \<open>
  \<open>batchRead\<close>: the loop \<open>for i, v := range ops\<close> with its index.  The result map is an
  association list with one entry per key, in the order the keys were first stored.
\<close>

fun batchRead_loop ::
  "'s Client \<Rightarrow> nat \<Rightarrow> readOp list \<Rightarrow> (uint16 \<times> byte list) list \<Rightarrow> 's
     \<Rightarrow> (error + (uint16 \<times> byte list) list) \<times> 's" where
  "batchRead_loop c i [] results s = (Inr results, s)"
| "batchRead_loop c i (v # vs) results s =
     (case Client_read c v s of
        (Inl err, s') \<Rightarrow> (Inl (ReadRequestError (i + 1) (register v) err), s')
      | (Inr b, s') \<Rightarrow> batchRead_loop c (i + 1) vs (AList.update (register v) b results) s')"

definition Client_batchRead ::
  "'s Client \<Rightarrow> readOp list \<Rightarrow> 's \<Rightarrow> (error + (uint16 \<times> byte list) list) \<times> 's" where
  "Client_batchRead c ops s = batchRead_loop c 0 ops [] s"

fun batchWrite_loop ::
  "'s Client \<Rightarrow> nat \<Rightarrow> writeOp list \<Rightarrow> memory \<Rightarrow> 's \<Rightarrow> error option \<times> 's" where
  "batchWrite_loop c i [] m s = (None, s)"
| "batchWrite_loop c i (v # vs) m s =
     (case Client_write c v m s of
        (Some err, s') \<Rightarrow> (Some (WriteRequestError (i + 1) (register v) err), s')
      | (None, s') \<Rightarrow> batchWrite_loop c (i + 1) vs m s')"

definition Client_batchWrite ::
  "'s Client \<Rightarrow> writeOp list \<Rightarrow> memory \<Rightarrow> 's \<Rightarrow> error option \<times> 's" where
  "Client_batchWrite c ops m s = batchWrite_loop c 0 ops m s"

text \<open>
  \<open>BatchRead\<close>.  First loop: convert and validate every request, returning the first
  error.  Then optimize, execute, lay the chunks out in a fresh buffer of \<open>maxUint16\<close>
  bytes at offset \<open>int(index)*2\<close>, and convert every request's bytes.  Go ranges over
  the result map in no fixed order; the model takes the order of first insertion (the
  chunks of disjoint ranges land at disjoint offsets, where the order is immaterial).
\<close>

definition maxUint16 :: nat where
  "maxUint16 = 65536"

fun convertReads :: "Read list \<Rightarrow> readOp list \<Rightarrow> error + readOp list" where
  "convertReads [] preopt = Inr preopt"
| "convertReads (op # ops) preopt =
     (case convertReadOp op of
        (rop, Some err) \<Rightarrow> Inl err
      | (rop, None) \<Rightarrow> convertReads ops (preopt @ [rop]))"

fun alignResults :: "(uint16 \<times> byte list) list \<Rightarrow> byte list \<Rightarrow> byte list" where
  "alignResults [] mem = mem"
| "alignResults ((index, result) # rest) mem =
     alignResults rest (fst (Slice_Set mem (uint index * 2) result))"

fun convertResults ::
  "byte list \<Rightarrow> Read list \<Rightarrow> (uint16 \<rightharpoonup> byte list Value)
     \<Rightarrow> error + (uint16 \<rightharpoonup> byte list Value)" where
  "convertResults mem [] resultMap = Inr resultMap"
| "convertResults mem (op # ops) resultMap =
     (case Slice_Get mem (uint (Register op) * 2) (uint (Size (Type op)) * 2) of
        Inl p \<Rightarrow> Inl p
      | Inr b \<Rightarrow>
          (case Converter (Type op) b of
             Inl err \<Rightarrow> Inl (ReadOpError (Register op) err)
           | Inr result \<Rightarrow> convertResults mem ops (resultMap(Register op \<mapsto> result))))"

definition Client_BatchRead ::
  "'s Client \<Rightarrow> Read list \<Rightarrow> 's \<Rightarrow> (error + (uint16 \<rightharpoonup> byte list Value)) \<times> 's" where
  "Client_BatchRead c ops s =
     (case convertReads ops [] of
        Inl err \<Rightarrow> (Inl err, s)
      | Inr preopt \<Rightarrow>
          (case Client_batchRead c (optimizeRead preopt) s of
             (Inl err, s') \<Rightarrow> (Inl err, s')
           | (Inr results, s') \<Rightarrow>
               (convertResults (alignResults results (NewSlice maxUint16)) ops Map.empty, s')))"

text \<open>
  \<open>BatchWrite\<close>.  \<open>oldData\<close> is \<open>None\<close> for Go's nil map.  With a snapshot, a request
  is converted and appended when \<open>!ok || !bytes.Equal(op.Value().Bytes(), value.Bytes())\<close>;
  without one, every request is.  Either loop returns the first validation error.  The
  optimizer then runs on the list built, and the executor on its result and on the memory
  it leaves; \<open>BatchWrite\<close> returns the error, the state of the transport and the memory.
\<close>

fun diffWrites ::
  "memory \<Rightarrow> (uint16 \<rightharpoonup> byte list Value) \<Rightarrow> Write list \<Rightarrow> writeOp list
     \<Rightarrow> error + writeOp list" where
  "diffWrites m oldData [] diffOpt = Inr diffOpt"
| "diffWrites m oldData (op # ops) diffOpt =
     (if (case oldData (Register op) of
            None \<Rightarrow> True
          | Some v \<Rightarrow> load m (Bytes (Value op)) \<noteq> Bytes v)
      then (case convertWriteOp op of
              (wop, Some err) \<Rightarrow> Inl err
            | (wop, None) \<Rightarrow> diffWrites m oldData ops (diffOpt @ [wop]))
      else diffWrites m oldData ops diffOpt)"

fun convertWrites :: "Write list \<Rightarrow> writeOp list \<Rightarrow> error + writeOp list" where
  "convertWrites [] diffOpt = Inr diffOpt"
| "convertWrites (op # ops) diffOpt =
     (case convertWriteOp op of
        (wop, Some err) \<Rightarrow> Inl err
      | (wop, None) \<Rightarrow> convertWrites ops (diffOpt @ [wop]))"

definition Client_BatchWrite ::
  "'s Client \<Rightarrow> Write list \<Rightarrow> (uint16 \<rightharpoonup> byte list Value) option \<Rightarrow> memory \<Rightarrow> 's
     \<Rightarrow> error option \<times> 's \<times> memory" where
  "Client_BatchWrite c ops oldData m s =
     (case (case oldData of
              Some old \<Rightarrow> diffWrites m old ops []
            | None \<Rightarrow> convertWrites ops []) of
        Inl err \<Rightarrow> (Some err, s, m)
      | Inr diffOpt \<Rightarrow>
          (case optimizeWrite diffOpt m of
             (optimized, m') \<Rightarrow>
               (case Client_batchWrite c optimized m' s of
                  (err, s') \<Rightarrow> (err, s', m'))))"

definition Client_Read ::
  "'s Client \<Rightarrow> uint16 \<Rightarrow> Type \<Rightarrow> 's \<Rightarrow> (error + byte list Value) \<times> 's" where
  "Client_Read c reg t s =
     (case newReadOp reg (Size t) of
        (op, Some err) \<Rightarrow> (Inl err, s)
      | (op, None) \<Rightarrow>
          (case Client_read c op s of
             (Inl err, s') \<Rightarrow> (Inl err, s')
           | (Inr res, s') \<Rightarrow> (Converter t res, s')))"

definition Client_Write ::
  "'s Client \<Rightarrow> uint16 \<Rightarrow> slice Value \<Rightarrow> memory \<Rightarrow> 's \<Rightarrow> error option \<times> 's" where
  "Client_Write c reg v m s =
     (case newWriteOp reg (Bytes v) of
        (op, Some err) \<Rightarrow> (Some err, s)
      | (op, None) \<Rightarrow> Client_write c op m s)"

section \<open>The earlier client (src/unnamed/part_001)\<close>

text \<open>
  The repository also holds the client this package was extracted from (its ceilings are
  the constants of conv.go).  It differs from the one above in three places that matter
  below: \<open>writeOp.validate\<close> rejects a payload of odd length, the constructors panic on
  a validation error instead of returning it, and \<open>read\<close> and \<open>write\<close> repeat a failed
  transport call once.  A panic is the error \<open>Panic\<close> wrapped around the value passed
  to \<open>panic\<close>.
\<close>

definition maxModbusFunc16Quantity :: uint16 where
  "maxModbusFunc16Quantity = 123"

definition legacy_writeOp_validate :: "writeOp \<Rightarrow> error option" where
  "legacy_writeOp_validate w =
     (if len (value w) mod 2 \<noteq> 0 then Some ErrOddByteNumber
      else if quantity w > maxModbusFunc16Quantity
      then Some (ErrTooManyRegisters (unat maxModbusFunc16Quantity))
      else None)"

definition legacy_newWriteOp :: "uint16 \<Rightarrow> slice \<Rightarrow> error + writeOp" where
  "legacy_newWriteOp r v =
     (let wo = \<lparr>register = r, quantity = word_of_nat (len v div 2), value = v\<rparr>
      in case legacy_writeOp_validate wo of
           Some err \<Rightarrow> Inl (Panic err)
         | None \<Rightarrow> Inr wo)"

record WriteOp = Request +
  Bits :: slice

definition legacy_convertWriteOp :: "WriteOp \<Rightarrow> error + writeOp" where
  "legacy_convertWriteOp w =
     (let wo = \<lparr>register = Register w,
                quantity = word_of_nat (len (Bits w) div 2),
                value = Bits w\<rparr>
      in case legacy_writeOp_validate wo of
           Some err \<Rightarrow> Inl (Panic err)
         | None \<Rightarrow> Inr wo)"

definition legacy_read :: "'s Client \<Rightarrow> readOp \<Rightarrow> 's \<Rightarrow> (error + byte list) \<times> 's" where
  "legacy_read c r s =
     (case ReadHoldingRegisters c (register r) (quantity r) s of
        (Inl err, s') \<Rightarrow> ReadHoldingRegisters c (register r) (quantity r) s'
      | (Inr result, s') \<Rightarrow> (Inr result, s'))"

definition legacy_write :: "'s Client \<Rightarrow> writeOp \<Rightarrow> memory \<Rightarrow> 's \<Rightarrow> error option \<times> 's" where
  "legacy_write c r m s =
     (case WriteMultipleRegisters c (register r) (quantity r) (load m (value r)) s of
        (Inl err, s') \<Rightarrow>
          (case WriteMultipleRegisters c (register r) (quantity r) (load m (value r)) s' of
             (Inl err', s'') \<Rightarrow> (Some err', s'')
           | (Inr b, s'') \<Rightarrow> (None, s''))
      | (Inr b, s') \<Rightarrow> (None, s'))"

definition legacy_Write ::
  "'s Client \<Rightarrow> uint16 \<Rightarrow> slice \<Rightarrow> memory \<Rightarrow> 's \<Rightarrow> error option \<times> 's" where
  "legacy_Write c r v m s =
     (case legacy_newWriteOp r v of
        Inl p \<Rightarrow> (Some p, s)
      | Inr op \<Rightarrow>
          (case legacy_write c op m s of
             (Some err, s') \<Rightarrow> (Some (WriteError r err), s')
           | (None, s') \<Rightarrow> (None, s')))"

section \<open>Scripted transports and a memory to run on\<close>

text \<open>
  Transports for running the client on concrete inputs.  The state of \<open>failingAt k\<close> is
  the number of calls made so far; the call numbered \<open>k\<close> (counting from 0) fails with a
  timeout, every other read answers two zero bytes per register and every other write
  succeeds.  \<open>recording\<close> never fails; its state is the list of the writes it was sent.
\<close>

definition failingAt :: "nat \<Rightarrow> nat Client" where
  "failingAt k =
     \<lparr>ReadHoldingRegisters =
        (\<lambda>r q n. (if n = k then Inl (TransportError ''timeout'')
                   else Inr (replicate (2 * unat q) 0), Suc n)),
      WriteMultipleRegisters =
        (\<lambda>r q v n. (if n = k then Inl (TransportError ''timeout'') else Inr [], Suc n))\<rparr>"

definition recording :: "(uint16 \<times> uint16 \<times> byte list) list Client" where
  "recording =
     \<lparr>ReadHoldingRegisters = (\<lambda>r q sent. (Inr (replicate (2 * unat q) 0), sent)),
      WriteMultipleRegisters = (\<lambda>r q v sent. (Inr [], sent @ [(r, q, v)]))\<rparr>"

text \<open>
  \<open>memory_of bs\<close> is a memory whose allocated part holds the bytes \<open>bs\<close> from address 0;
  its runtime doubles the capacity when an array has to grow.
\<close>

definition memory_of :: "byte list \<Rightarrow> memory" where
  "memory_of bs =
     \<lparr>cells = (\<lambda>a. if a < length bs then bs ! a else 0),
      brk = length bs,
      grow = (\<lambda>c n. 2 * c)\<rparr>"

section \<open>The operations as the specification has them\<close>

text \<open>
  The specification's write op carries a byte sequence.  \<open>contents m w\<close> is the write op
  \<open>w\<close> with the bytes its payload slice holds in the memory \<open>m\<close>.
\<close>

record specWriteOp = readOp +
  payload :: "byte list"

definition contents :: "memory \<Rightarrow> writeOp \<Rightarrow> specWriteOp" where
  "contents m w = \<lparr>register = register w, quantity = quantity w, payload = load m (value w)\<rparr>"

text \<open>
  The differential filter: a write is retained when its register is absent from the
  snapshot or its bytes differ from the bytes of the value stored there.
\<close>

definition retained :: "memory \<Rightarrow> (uint16 \<rightharpoonup> byte list Value) \<Rightarrow> Write \<Rightarrow> bool" where
  "retained m old op =
     (case old (Register op) of
        None \<Rightarrow> True
      | Some v \<Rightarrow> load m (Bytes (Value op)) \<noteq> Bytes v)"

text \<open>
  The merge algorithm: walk the sorted ops from left to right; while the next op starts
  where the accumulator ends and the merged quantity does not exceed the ceiling, add its
  quantity (for writes, append its bytes) and advance; at the first op that cannot be
  merged, emit the accumulator and start a new one there.
\<close>

fun greedyRead :: "readOp \<Rightarrow> readOp list \<Rightarrow> readOp list" where
  "greedyRead acc [] = [acc]"
| "greedyRead acc (p # ps) =
     (if register p = register acc + quantity acc \<and>
         quantity acc + quantity p \<le> maxFunc3Quantity
      then greedyRead (acc\<lparr>quantity := quantity acc + quantity p\<rparr>) ps
      else acc # greedyRead p ps)"

definition spec_optimizeRead :: "readOp list \<Rightarrow> readOp list" where
  "spec_optimizeRead r =
     (case sort_key register r of [] \<Rightarrow> [] | x # rest \<Rightarrow> greedyRead x rest)"

fun greedyWrite :: "specWriteOp \<Rightarrow> specWriteOp list \<Rightarrow> specWriteOp list" where
  "greedyWrite acc [] = [acc]"
| "greedyWrite acc (p # ps) =
     (if register p = register acc + quantity acc \<and>
         quantity acc + quantity p \<le> maxFunc16Quantity
      then greedyWrite (acc\<lparr>quantity := quantity acc + quantity p,
                              payload := payload acc @ payload p\<rparr>) ps
      else acc # greedyWrite p ps)"

definition spec_optimizeWrite :: "specWriteOp list \<Rightarrow> specWriteOp list" where
  "spec_optimizeWrite w =
     (case sort_key register w of [] \<Rightarrow> [] | x # rest \<Rightarrow> greedyWrite x rest)"

text \<open>
  Ranges that do not overlap: in ascending order of register, every op ends at or before
  the register where each later op begins.
\<close>

definition disjoint_ranges :: "'a readOp_scheme list \<Rightarrow> bool" where
  "disjoint_ranges xs =
     sorted_wrt (\<lambda>a b. unat (register a) + unat (quantity a) \<le> unat (register b))
       (sort_key register xs)"

text \<open>
  A payload without spare capacity: the slice lies in allocated memory and its capacity
  is its length, as for a slice fresh from \<open>make\<close> or from a \<open>Bytes()\<close> of the built-in
  types.  An \<open>append\<close> to it that adds bytes cannot write in place.
\<close>

definition no_spare_capacity :: "memory \<Rightarrow> slice \<Rightarrow> bool" where
  "no_spare_capacity m s = (cap s = len s \<and> ptr s + len s \<le> brk m)"

text \<open>
  Where the op under construction lives while the inner loop of \<open>optimizeWrite\<close> runs:
  either it is still an input payload, below the address \<open>b\<close> and without spare
  capacity, or it is a block that \<open>append\<close> has allocated at or above \<open>b\<close>.
\<close>

definition owned :: "memory \<Rightarrow> nat \<Rightarrow> slice \<Rightarrow> bool" where
  "owned m b s = ((cap s = len s \<and> ptr s + len s \<le> b) \<or>
                  (b \<le> ptr s \<and> len s \<le> cap s \<and> ptr s + cap s \<le> brk m))"

section \<open>The loops of the optimizer as recursions on the rest of the list\<close>

text \<open>
  The outer loop of the optimizer only moves forward through \<open>preopt\<close>, so it can be
  read as a recursion on the part of the list not yet consumed: take the head, run the
  inner loop over the tail, emit the result, and continue after as many elements as the
  inner loop merged.  \<open>outerRead_mergeRead\<close> below proves that the indexed loop of
  \<open>optimizeRead\<close> computes exactly this.  For writes, \<open>innerPayload\<close> and \<open>mergePayload\<close>
  are the same loops on the contents of the ops; \<open>outerWrite_contents\<close> below proves that
  the loops of \<open>optimizeWrite\<close> compute them when no payload has spare capacity.  These
  three functions serve the proofs; they are not part of the program.
\<close>

function mergeRead :: "readOp list \<Rightarrow> readOp list" where
  "mergeRead [] = []"
| "mergeRead (x # xs) = (case innerRead x 0 xs of (op, m) \<Rightarrow> op # mergeRead (drop m xs))"
  by pat_completeness auto
termination
  by (relation "measure length") auto

fun innerPayload :: "specWriteOp \<Rightarrow> nat \<Rightarrow> specWriteOp list \<Rightarrow> specWriteOp \<times> nat" where
  "innerPayload op i [] = (op, i)"
| "innerPayload op i (p # ps) =
     (if register p = register op + quantity op \<and>
         quantity op + quantity p \<le> maxFunc16Quantity
      then innerPayload (op\<lparr>quantity := quantity op + quantity p,
                               payload := payload op @ payload p\<rparr>) (i + 1) ps
      else innerPayload op i ps)"

function mergePayload :: "specWriteOp list \<Rightarrow> specWriteOp list" where
  "mergePayload [] = []"
| "mergePayload (x # xs) =
     (case innerPayload x 0 xs of (op, m) \<Rightarrow> op # mergePayload (drop m xs))"
  by pat_completeness auto
termination
  by (relation "measure length") auto

section \<open>The flat address space\<close>

text \<open>
  What \<open>Set\<close> and \<open>Get\<close> do on every input whose sum \<open>offset + size\<close> stays inside
  Go's \<open>int\<close>.
\<close>

lemma Slice_Set_outside:
  "offset < 0 \<or> int (length s) \<le> offset \<Longrightarrow> Slice_Set s offset data = (s, 0)"
  by (auto simp: Slice_Set_def)

lemma Slice_Set_count:
  "0 \<le> offset \<Longrightarrow> offset < int (length s) \<Longrightarrow>
   snd (Slice_Set s offset data) = min (int (length s) - offset) (int (length data))"
  by (auto simp: Slice_Set_def Let_def min_def)

lemma Slice_Set_length: "length (fst (Slice_Set s offset data)) = length s"
  by (auto simp: Slice_Set_def Let_def min_def)

lemma Slice_Get_empty:
  "offset < 0 \<or> sz < 0 \<or> int (length s) \<le> offset \<Longrightarrow> Slice_Get s offset sz = Inr []"
  by (auto simp: Slice_Get_def)

lemma go_int_add_exact:
  "- (2 ^ 63) \<le> a + b \<Longrightarrow> a + b < 2 ^ 63 \<Longrightarrow> go_int_add a b = a + b"
  unfolding go_int_add_def by (rule signed_take_bit_int_eq_self) simp_all

lemma Slice_Get_no_overflow:
  assumes "0 \<le> offset" and "0 \<le> sz" and "offset < int (length s)" and "offset + sz < 2 ^ 63"
  shows "Slice_Get s offset sz =
           Inr (if int (length s) \<le> offset + sz then drop (nat offset) s
                else take (nat sz) (drop (nat offset) s))"
proof -
  from assms have "go_int_add offset sz = offset + sz"
    by (intro go_int_add_exact) simp_all
  with assms show ?thesis
    by (auto simp: Slice_Get_def slice_expr_def)
qed

text \<open>
  C6.  The claim: for every integer offset and size, \<open>Set\<close> and \<open>Get\<close> never fail or
  panic, and \<open>Get\<close> returns the in-range remainder when \<open>offset + size\<close> exceeds the
  buffer.  \<open>Set\<close> is as claimed (\<open>Slice_Set_outside\<close>, \<open>Slice_Set_count\<close>), and so is
  \<open>Get\<close> as long as \<open>offset + size\<close> does not overflow (\<open>Slice_Get_empty\<close>,
  \<open>Slice_Get_no_overflow\<close>).  On the three-byte buffer \<open>{3, 4, 5}\<close>, however,
  \<open>Get(1, math.MaxInt64)\<close> computes \<open>offset+size\<close> as the most negative integer, passes
  the test \<open>len(s) <= offset+size\<close> and panics in \<open>s[offset : offset+size]\<close>.
\<close>

theorem Slice_Get_panics_on_overflow:
  "Slice_Get [3, 4, 5] 1 9223372036854775807 = Inl SliceBoundsOutOfRange"
  by (simp add: Slice_Get_def slice_expr_def go_int_add_def)

text \<open>
  The buffer of \<open>BatchRead\<close> and the offset \<open>2 * r\<close> of a register: inside the buffer
  below register 32768, outside it from there on.
\<close>

lemma low_register_inside_buffer:
  fixes r :: uint16
  assumes "r < 32768"
  shows "uint r * 2 + 2 \<le> int (length (NewSlice maxUint16))"
  using assms by (simp add: NewSlice_def maxUint16_def word_less_def)

lemma high_register_outside_buffer:
  fixes r :: uint16
  assumes "32768 \<le> r"
  shows "Slice_Set (NewSlice maxUint16) (uint r * 2) data = (NewSlice maxUint16, 0)"
    and "Slice_Get (NewSlice maxUint16) (uint r * 2) sz = Inr []"
  using assms
  by (simp_all add: NewSlice_def maxUint16_def Slice_Set_def Slice_Get_def word_le_def)

text \<open>
  C2.  The claim: the buffer \<open>BatchRead\<close> creates has 131072 bytes, so that offset
  \<open>2 * r\<close> lies inside it for every register \<open>r\<close>.  The buffer has \<open>maxUint16 = 65536\<close>
  bytes, which is room for the registers below 32768 only.  For register 32768 \<open>Set\<close>
  stores nothing, \<open>Get\<close> returns nothing, and a batched read of a two-register value
  there fails in the converter although the transport call succeeded (the scripted
  transport has made its one call and has not failed).
\<close>

theorem BatchRead_buffer_too_short:
  "length (NewSlice maxUint16) = 65536 \<and>
   Slice_Set (NewSlice maxUint16) (uint (32768 :: uint16) * 2) [1, 2, 3, 4]
     = (NewSlice maxUint16, 0) \<and>
   Slice_Get (NewSlice maxUint16) (uint (32768 :: uint16) * 2) (uint (2 :: uint16) * 2)
     = Inr [] \<and>
   Client_BatchRead (failingAt 1) [\<lparr>Register = 32768, Type = Float32Type\<rparr>] 0
     = (Inl (ReadOpError 32768 (ErrInvalidInput 0)), 1)"
  by (simp add: Client_BatchRead_def convertReadOp_def readOp_validate_def maxFunc3Quantity_def
        Float32Type_def optimizeRead_def outerRead.simps Client_batchRead_def Client_read_def
        NewSlice_def maxUint16_def Slice_Set_def Slice_Get_def failingAt_def)

section \<open>The merge optimizer\<close>

text \<open>
  C8.  The claim: an op whose range overlaps another without being adjacent passes
  through the optimizer as a separate op, exactly once and unmodified.  For the reads
  \<open>(2, 2)\<close>, \<open>(3, 5)\<close>, \<open>(4, 1)\<close> the inner loop passes over \<open>(3, 5)\<close>, merges
  \<open>(4, 1)\<close> into \<open>(2, 2)\<close> and adds one to \<open>i\<close>; the outer loop then resumes at
  \<open>(4, 1)\<close>.  The overlapping op \<open>(3, 5)\<close> is not in the output at all, and \<open>(4, 1)\<close> is
  there twice: merged and on its own.  The writes behave the same way: the three payloads
  lie one after the other in memory, each without spare capacity, and the ops returned
  hold the bytes shown.
\<close>

theorem optimize_drops_overlapping_op:
  "optimizeRead [\<lparr>register = 2, quantity = 2\<rparr>, \<lparr>register = 3, quantity = 5\<rparr>,
                 \<lparr>register = 4, quantity = 1\<rparr>]
     = [\<lparr>register = 2, quantity = 3\<rparr>, \<lparr>register = 4, quantity = 1\<rparr>] \<and>
   (case optimizeWrite
           [\<lparr>register = 2, quantity = 2, value = \<lparr>ptr = 0, len = 4, cap = 4\<rparr>\<rparr>,
            \<lparr>register = 3, quantity = 2, value = \<lparr>ptr = 4, len = 4, cap = 4\<rparr>\<rparr>,
            \<lparr>register = 4, quantity = 1, value = \<lparr>ptr = 8, len = 2, cap = 2\<rparr>\<rparr>]
           (memory_of [1, 2, 3, 4, 5, 6, 7, 8, 9, 10]) of
      (opt, m') \<Rightarrow> map (contents m') opt)
     = [\<lparr>register = 2, quantity = 3, payload = [1, 2, 3, 4, 9, 10]\<rparr>,
        \<lparr>register = 4, quantity = 1, payload = [9, 10]\<rparr>]"
  by code_simp

section \<open>The batching executor\<close>

lemma batchRead_loop_append:
  "batchRead_loop c i (xs @ rest) results s =
     (case batchRead_loop c i xs results s of
        (Inl e, s') \<Rightarrow> (Inl e, s')
      | (Inr results', s') \<Rightarrow> batchRead_loop c (i + length xs) rest results' s')"
  by (induction xs arbitrary: i results s) (auto split: prod.splits sum.splits)

lemma batchWrite_loop_append:
  "batchWrite_loop c i (xs @ rest) m s =
     (case batchWrite_loop c i xs m s of
        (Some e, s') \<Rightarrow> (Some e, s')
      | (None, s') \<Rightarrow> batchWrite_loop c (i + length xs) rest m s')"
  by (induction xs arbitrary: i s) (auto split: prod.splits option.splits)

text \<open>
  C9.  When the ops before position \<open>i\<close> have succeeded and the transport call of the op
  at position \<open>i\<close> fails, the batch executor returns the transport error wrapped with
  \<open>i\<close> (counted from 1) and the op's register.  The state returned is the one the
  failing call left: it holds the effects of the earlier ops, and no later op was
  attempted (the ops after position \<open>i\<close> do not occur on the right-hand side).  The
  statement for reads and the statement for writes stand each on its own, for any
  transport.
\<close>

theorem batch_aborts_at_first_failure:
  "(Client_batchRead c rs s = (Inr results, s1) \<and> Client_read c r s1 = (Inl err, s2)
      \<longrightarrow> Client_batchRead c (rs @ r # rs') s
            = (Inl (ReadRequestError (length rs + 1) (register r) err), s2)) \<and>
   (Client_batchWrite c' ws m t = (None, t1) \<and> Client_write c' w m t1 = (Some err', t2)
      \<longrightarrow> Client_batchWrite c' (ws @ w # ws') m t
            = (Some (WriteRequestError (length ws + 1) (register w) err'), t2))"
  by (simp add: Client_batchRead_def Client_batchWrite_def batchRead_loop_append
        batchWrite_loop_append)

theorem batch_aborts_at_first_failure_witness:
  "Client_batchRead (failingAt 2) [\<lparr>register = 10, quantity = 2\<rparr>, \<lparr>register = 20, quantity = 1\<rparr>] 0
     = (Inr [(10, replicate 4 0), (20, replicate 2 0)], 2) \<and>
   Client_read (failingAt 2) \<lparr>register = 30, quantity = 1\<rparr> 2
     = (Inl (TransportError ''timeout''), 3) \<and>
   Client_batchWrite (failingAt 2)
       [\<lparr>register = 10, quantity = 1, value = \<lparr>ptr = 0, len = 2, cap = 2\<rparr>\<rparr>,
        \<lparr>register = 20, quantity = 1, value = \<lparr>ptr = 2, len = 2, cap = 2\<rparr>\<rparr>]
       (memory_of [1, 2, 3, 4, 5, 6, 7, 8]) 0 = (None, 2) \<and>
   Client_write (failingAt 2) \<lparr>register = 30, quantity = 1, value = \<lparr>ptr = 4, len = 2, cap = 2\<rparr>\<rparr>
       (memory_of [1, 2, 3, 4, 5, 6, 7, 8]) 2
     = (Some (TransportError ''timeout''), 3) \<and>
   Client_batchRead (failingAt 2)
     ([\<lparr>register = 10, quantity = 2\<rparr>, \<lparr>register = 20, quantity = 1\<rparr>]
        @ \<lparr>register = 30, quantity = 1\<rparr> # [\<lparr>register = 40, quantity = 1\<rparr>]) 0
     = (Inl (ReadRequestError 3 30 (TransportError ''timeout'')), 3) \<and>
   Client_batchWrite (failingAt 2)
     ([\<lparr>register = 10, quantity = 1, value = \<lparr>ptr = 0, len = 2, cap = 2\<rparr>\<rparr>,
       \<lparr>register = 20, quantity = 1, value = \<lparr>ptr = 2, len = 2, cap = 2\<rparr>\<rparr>]
        @ \<lparr>register = 30, quantity = 1, value = \<lparr>ptr = 4, len = 2, cap = 2\<rparr>\<rparr>
        # [\<lparr>register = 40, quantity = 1, value = \<lparr>ptr = 6, len = 2, cap = 2\<rparr>\<rparr>])
     (memory_of [1, 2, 3, 4, 5, 6, 7, 8]) 0
     = (Some (WriteRequestError 3 30 (TransportError ''timeout'')), 3)"
proof -
  have h1: "Client_batchRead (failingAt 2)
      [\<lparr>register = 10, quantity = 2\<rparr>, \<lparr>register = 20, quantity = 1\<rparr>] 0
     = (Inr [(10, replicate 4 0), (20, replicate 2 0)], 2)"
    by (simp add: Client_batchRead_def Client_read_def failingAt_def)
  have h2: "Client_read (failingAt 2) \<lparr>register = 30, quantity = 1\<rparr> 2
     = (Inl (TransportError ''timeout''), 3)"
    by (simp add: Client_read_def failingAt_def)
  have h3: "Client_batchWrite (failingAt 2)
       [\<lparr>register = 10, quantity = 1, value = \<lparr>ptr = 0, len = 2, cap = 2\<rparr>\<rparr>,
        \<lparr>register = 20, quantity = 1, value = \<lparr>ptr = 2, len = 2, cap = 2\<rparr>\<rparr>]
       (memory_of [1, 2, 3, 4, 5, 6, 7, 8]) 0 = (None, 2)"
    by (simp add: Client_batchWrite_def Client_write_def failingAt_def)
  have h4: "Client_write (failingAt 2)
       \<lparr>register = 30, quantity = 1, value = \<lparr>ptr = 4, len = 2, cap = 2\<rparr>\<rparr>
       (memory_of [1, 2, 3, 4, 5, 6, 7, 8]) 2
     = (Some (TransportError ''timeout''), 3)"
    by (simp add: Client_write_def failingAt_def)
  from batch_aborts_at_first_failure
    [of "failingAt 2" "[\<lparr>register = 10, quantity = 2\<rparr>, \<lparr>register = 20, quantity = 1\<rparr>]" 0
        "[(10, replicate 4 0), (20, replicate 2 0)]" 2 "\<lparr>register = 30, quantity = 1\<rparr>"
        "TransportError ''timeout''" 3 "[\<lparr>register = 40, quantity = 1\<rparr>]"
        "failingAt 2"
        "[\<lparr>register = 10, quantity = 1, value = \<lparr>ptr = 0, len = 2, cap = 2\<rparr>\<rparr>,
          \<lparr>register = 20, quantity = 1, value = \<lparr>ptr = 2, len = 2, cap = 2\<rparr>\<rparr>]"
        "memory_of [1, 2, 3, 4, 5, 6, 7, 8]" 0 2
        "\<lparr>register = 30, quantity = 1, value = \<lparr>ptr = 4, len = 2, cap = 2\<rparr>\<rparr>"
        "TransportError ''timeout''" 3
        "[\<lparr>register = 40, quantity = 1, value = \<lparr>ptr = 6, len = 2, cap = 2\<rparr>\<rparr>]"]
    h1 h2 h3 h4
  show ?thesis by simp
qed

text \<open>
  C4.  The claim: every failed transport call is retried exactly once with the same
  arguments before the error surfaces.  In the client of this package \<open>read\<close> and
  \<open>write\<close> make one call and return its error: on a transport whose first call times
  out and whose second call would succeed, the single and the batched write both return
  the timeout after one call.
\<close>

theorem no_retry_counterexample:
  "Client_read (failingAt 0) \<lparr>register = 5, quantity = 1\<rparr> 0
     = (Inl (TransportError ''timeout''), 1) \<and>
   ReadHoldingRegisters (failingAt 0) 5 1 1 = (Inr (replicate 2 0), 2) \<and>
   Client_write (failingAt 0) \<lparr>register = 5, quantity = 1, value = \<lparr>ptr = 0, len = 2, cap = 2\<rparr>\<rparr>
       (memory_of [1, 2]) 0
     = (Some (TransportError ''timeout''), 1) \<and>
   WriteMultipleRegisters (failingAt 0) 5 1 [1, 2] 1 = (Inr [], 2) \<and>
   Client_Write (failingAt 0) 5 (FromBytes \<lparr>ptr = 0, len = 2, cap = 2\<rparr>) (memory_of [1, 2]) 0
     = (Some (TransportError ''timeout''), 1) \<and>
   Client_batchWrite (failingAt 0)
       [\<lparr>register = 5, quantity = 1, value = \<lparr>ptr = 0, len = 2, cap = 2\<rparr>\<rparr>] (memory_of [1, 2]) 0
     = (Some (WriteRequestError 1 5 (TransportError ''timeout'')), 1)"
  by (simp add: Client_read_def Client_write_def Client_Write_def Client_batchWrite_def
        newWriteOp_def writeOp_validate_def maxFunc16Quantity_def failingAt_def)

text \<open>
  C4, amended.  In the earlier client (src/unnamed/part_001) a failed call of \<open>read\<close> or
  \<open>write\<close> is followed by exactly one more call with the same register, quantity and
  value, made in the state the failed call left, and the outcome of that second call is
  the outcome of the operation, also for \<open>Write\<close>.  In the client of this package the
  first failure is the outcome: of \<open>read\<close> and \<open>write\<close>, of \<open>Read\<close> and \<open>Write\<close>, and,
  wrapped with position and register, of \<open>batchRead\<close> and \<open>batchWrite\<close>.  Each of the
  five statements stands on its own.
\<close>

theorem retry_once_in_earlier_client_only:
  "(ReadHoldingRegisters c (register r) (quantity r) s = (Inl err, s')
      \<longrightarrow> legacy_read c r s = ReadHoldingRegisters c (register r) (quantity r) s' \<and>
          Client_read c r s = (Inl err, s') \<and>
          Client_batchRead c (r # rs) s = (Inl (ReadRequestError 1 (register r) err), s')) \<and>
   (Size t \<le> maxFunc3Quantity \<and> ReadHoldingRegisters c reg (Size t) s = (Inl err, s')
      \<longrightarrow> Client_Read c reg t s = (Inl err, s')) \<and>
   (WriteMultipleRegisters c' (register w) (quantity w) (load m (value w)) u = (Inl err', u')
      \<longrightarrow> legacy_write c' w m u =
            (case WriteMultipleRegisters c' (register w) (quantity w) (load m (value w)) u' of
               (Inl e, u'') \<Rightarrow> (Some e, u'')
             | (Inr b, u'') \<Rightarrow> (None, u'')) \<and>
          Client_write c' w m u = (Some err', u') \<and>
          Client_batchWrite c' (w # ws) m u
            = (Some (WriteRequestError 1 (register w) err'), u')) \<and>
   ((word_of_nat (len v div 2) :: uint16) \<le> maxFunc16Quantity \<and>
    WriteMultipleRegisters c' reg' (word_of_nat (len v div 2)) (load m v) u = (Inl err', u')
      \<longrightarrow> Client_Write c' reg' (FromBytes v) m u = (Some err', u')) \<and>
   (even (len v) \<and> (word_of_nat (len v div 2) :: uint16) \<le> maxModbusFunc16Quantity \<and>
    WriteMultipleRegisters c' reg' (word_of_nat (len v div 2)) (load m v) u = (Inl err', u')
      \<longrightarrow> legacy_Write c' reg' v m u =
            (case WriteMultipleRegisters c' reg' (word_of_nat (len v div 2)) (load m v) u' of
               (Inl e, u'') \<Rightarrow> (Some (WriteError reg' e), u'')
             | (Inr b, u'') \<Rightarrow> (None, u'')))"
  by (auto simp: legacy_read_def legacy_write_def Client_read_def Client_write_def
        Client_batchRead_def Client_batchWrite_def Client_Read_def Client_Write_def
        newReadOp_def newWriteOp_def readOp_validate_def writeOp_validate_def
        legacy_Write_def legacy_newWriteOp_def legacy_writeOp_validate_def
        split: prod.splits sum.splits)

theorem retry_once_in_earlier_client_only_witness:
  "ReadHoldingRegisters (failingAt 0) 5 2 0 = (Inl (TransportError ''timeout''), 1) \<and>
   Size Float32Type \<le> maxFunc3Quantity \<and>
   legacy_read (failingAt 0) \<lparr>register = 5, quantity = 2\<rparr> 0 = (Inr (replicate 4 0), 2) \<and>
   Client_read (failingAt 0) \<lparr>register = 5, quantity = 2\<rparr> 0
     = (Inl (TransportError ''timeout''), 1) \<and>
   Client_batchRead (failingAt 0) [\<lparr>register = 5, quantity = 2\<rparr>, \<lparr>register = 9, quantity = 1\<rparr>] 0
     = (Inl (ReadRequestError 1 5 (TransportError ''timeout'')), 1) \<and>
   Client_Read (failingAt 0) 5 Float32Type 0 = (Inl (TransportError ''timeout''), 1) \<and>
   WriteMultipleRegisters (failingAt 0) 5 1 (load (memory_of [1, 2]) \<lparr>ptr = 0, len = 2, cap = 2\<rparr>) 0
     = (Inl (TransportError ''timeout''), 1) \<and>
   even (len \<lparr>ptr = 0, len = 2, cap = 2\<rparr>) \<and>
   legacy_write (failingAt 0) \<lparr>register = 5, quantity = 1, value = \<lparr>ptr = 0, len = 2, cap = 2\<rparr>\<rparr>
       (memory_of [1, 2]) 0 = (None, 2) \<and>
   Client_write (failingAt 0) \<lparr>register = 5, quantity = 1, value = \<lparr>ptr = 0, len = 2, cap = 2\<rparr>\<rparr>
       (memory_of [1, 2]) 0 = (Some (TransportError ''timeout''), 1) \<and>
   Client_batchWrite (failingAt 0)
       [\<lparr>register = 5, quantity = 1, value = \<lparr>ptr = 0, len = 2, cap = 2\<rparr>\<rparr>] (memory_of [1, 2]) 0
     = (Some (WriteRequestError 1 5 (TransportError ''timeout'')), 1) \<and>
   Client_Write (failingAt 0) 5 (FromBytes \<lparr>ptr = 0, len = 2, cap = 2\<rparr>) (memory_of [1, 2]) 0
     = (Some (TransportError ''timeout''), 1) \<and>
   legacy_Write (failingAt 0) 5 \<lparr>ptr = 0, len = 2, cap = 2\<rparr> (memory_of [1, 2]) 0 = (None, 2)"
  using retry_once_in_earlier_client_only
    [of "failingAt 0" "\<lparr>register = 5, quantity = 2\<rparr>" 0 "TransportError ''timeout''" 1
        "[\<lparr>register = 9, quantity = 1\<rparr>]" Float32Type 5
        "failingAt 0" "\<lparr>register = 5, quantity = 1, value = \<lparr>ptr = 0, len = 2, cap = 2\<rparr>\<rparr>"
        "memory_of [1, 2]" 0 "TransportError ''timeout''" 1 "[]"
        "\<lparr>ptr = 0, len = 2, cap = 2\<rparr>" 5]
  by (simp add: failingAt_def Float32Type_def maxFunc3Quantity_def maxFunc16Quantity_def
        maxModbusFunc16Quantity_def)

section \<open>Validation\<close>

text \<open>
  C3.  The claim: a write whose payload has odd length fails validation with
  \<open>OddByteNumber\<close> before any transport call.  In this package \<open>writeOp.validate\<close> only
  compares the quantity with the ceiling, and the package has no such error: a
  three-byte payload is converted to quantity 1, passes, and is sent (the scripted
  transport has made one call; the recording one has received the three bytes).
\<close>

theorem odd_payload_reaches_the_wire:
  "convertWriteOp \<lparr>Register = 5, Value = FromBytes \<lparr>ptr = 0, len = 3, cap = 3\<rparr>\<rparr>
     = (\<lparr>register = 5, quantity = 1, value = \<lparr>ptr = 0, len = 3, cap = 3\<rparr>\<rparr>, None) \<and>
   (case Client_BatchWrite (failingAt 7)
           [\<lparr>Register = 5, Value = FromBytes \<lparr>ptr = 0, len = 3, cap = 3\<rparr>\<rparr>] None
           (memory_of [1, 2, 3]) 0 of
      (err, calls, m') \<Rightarrow> (err, calls)) = (None, 1) \<and>
   Client_Write (failingAt 7) 5 (FromBytes \<lparr>ptr = 0, len = 3, cap = 3\<rparr>) (memory_of [1, 2, 3]) 0
     = (None, 1) \<and>
   (case Client_BatchWrite recording
           [\<lparr>Register = 5, Value = FromBytes \<lparr>ptr = 0, len = 3, cap = 3\<rparr>\<rparr>] None
           (memory_of [1, 2, 3]) [] of
      (err, sent, m') \<Rightarrow> (err, sent)) = (None, [(5, 1, [1, 2, 3])])"
  by code_simp

text \<open>
  C3, amended.  For a payload of odd length: the validation of the earlier client
  (src/unnamed/part_001) fails with \<open>OddByteNumber\<close>, whatever the quantity; its
  constructors panic with that error, and its \<open>Write\<close> returns without touching the
  transport.  The validation of this package fails exactly when the quantity exceeds 123,
  with \<open>TooManyRegisters\<close>; \<open>Write\<close> and \<open>BatchWrite\<close> then return without touching the
  transport, and otherwise pass the payload with quantity \<open>len / 2\<close> to the executor.
\<close>

theorem odd_payload_validation:
  assumes "odd (len v)"
  shows "legacy_writeOp_validate \<lparr>register = r, quantity = q, value = v\<rparr> = Some ErrOddByteNumber \<and>
         legacy_newWriteOp r v = Inl (Panic ErrOddByteNumber) \<and>
         legacy_convertWriteOp \<lparr>Register = r, Bits = v\<rparr> = Inl (Panic ErrOddByteNumber) \<and>
         legacy_Write c r v m s = (Some (Panic ErrOddByteNumber), s) \<and>
         writeOp_validate \<lparr>register = r, quantity = q, value = v\<rparr>
           = (if q > 123 then Some (ErrTooManyRegisters 123) else None) \<and>
         Client_Write c r (FromBytes v) m s
           = (if (word_of_nat (len v div 2) :: uint16) > 123
              then (Some (ErrTooManyRegisters 123), s)
              else Client_write c
                     \<lparr>register = r, quantity = word_of_nat (len v div 2), value = v\<rparr> m s) \<and>
         Client_BatchWrite c [\<lparr>Register = r, Value = FromBytes v\<rparr>] None m s
           = (if (word_of_nat (len v div 2) :: uint16) > 123
              then (Some (ErrTooManyRegisters 123), s, m)
              else (case Client_batchWrite c
                           [\<lparr>register = r, quantity = word_of_nat (len v div 2), value = v\<rparr>]
                           m s of
                      (err, s') \<Rightarrow> (err, s', m)))"
  using assms
  by (simp add: legacy_writeOp_validate_def legacy_newWriteOp_def legacy_convertWriteOp_def
        legacy_Write_def writeOp_validate_def maxFunc16Quantity_def maxModbusFunc16Quantity_def
        Client_Write_def newWriteOp_def Client_BatchWrite_def
        convertWriteOp_def optimizeWrite_def outerWrite.simps odd_iff_mod_2_eq_one)

theorem odd_payload_validation_witness:
  "odd (len \<lparr>ptr = 0, len = 3, cap = 3\<rparr>) \<and>
   legacy_writeOp_validate \<lparr>register = 5, quantity = 1, value = \<lparr>ptr = 0, len = 3, cap = 3\<rparr>\<rparr>
     = Some ErrOddByteNumber \<and>
   legacy_Write (failingAt 7) 5 \<lparr>ptr = 0, len = 3, cap = 3\<rparr> (memory_of [1, 2, 3]) 0
     = (Some (Panic ErrOddByteNumber), 0) \<and>
   writeOp_validate \<lparr>register = 5, quantity = 1, value = \<lparr>ptr = 0, len = 3, cap = 3\<rparr>\<rparr> = None \<and>
   Client_Write (failingAt 7) 5 (FromBytes \<lparr>ptr = 0, len = 3, cap = 3\<rparr>) (memory_of [1, 2, 3]) 0
     = (None, 1)"
proof -
  have h: "odd (len \<lparr>ptr = 0, len = 3, cap = 3\<rparr>)" by simp
  from odd_payload_validation [OF h, of 5 1 "failingAt 7" "memory_of [1, 2, 3]" 0] h
  show ?thesis
    by (simp add: Client_write_def failingAt_def)
qed

section \<open>The differential filter\<close>

lemma retained_iff:
  "retained m old op \<longleftrightarrow>
     Register op \<notin> dom old \<or>
     (\<exists>v. old (Register op) = Some v \<and> load m (Bytes (Value op)) \<noteq> Bytes v)"
  by (auto simp: retained_def split: option.splits)

lemma diffWrites_filter:
  "diffWrites m old ops acc = convertWrites (filter (retained m old) ops) acc"
  by (induction ops arbitrary: acc) (auto simp: retained_def split: prod.splits option.splits)

lemma convertWrites_find:
  "convertWrites ops acc =
     (case find (\<lambda>op. snd (convertWriteOp op) \<noteq> None) ops of
        Some bad \<Rightarrow> Inl (the (snd (convertWriteOp bad)))
      | None \<Rightarrow> Inr (acc @ map (\<lambda>op. fst (convertWriteOp op)) ops))"
  by (induction ops arbitrary: acc) (auto split: prod.splits option.splits)

text \<open>
  C5.  With a snapshot, \<open>BatchWrite\<close> does what it does without one on the retained
  requests alone, in their order: a request whose register is in the snapshot with the
  same bytes is dropped before conversion, validation and transport.  Without a snapshot
  every request passes: unless one of them fails validation (then its error is returned
  and neither transport nor memory is touched), the conversions of all requests go to the
  optimizer and its result to the executor.  The choice of the requests reads the
  requests, their bytes and the snapshot, and nothing else.
\<close>

theorem BatchWrite_differential_filter:
  "Client_BatchWrite c ops (Some old) m s
     = Client_BatchWrite c (filter (retained m old) ops) None m s \<and>
   Client_BatchWrite c ops None m s
     = (case find (\<lambda>op. snd (convertWriteOp op) \<noteq> None) ops of
          Some bad \<Rightarrow> (snd (convertWriteOp bad), s, m)
        | None \<Rightarrow>
            (case optimizeWrite (map (\<lambda>op. fst (convertWriteOp op)) ops) m of
               (optimized, m') \<Rightarrow>
                 (case Client_batchWrite c optimized m' s of
                    (err, s') \<Rightarrow> (err, s', m'))))"
proof -
  have "snd (convertWriteOp bad) = Some (the (snd (convertWriteOp bad)))"
    if "find (\<lambda>op. snd (convertWriteOp op) \<noteq> None) ops = Some bad" for bad
    using that by (auto simp: find_Some_iff)
  then show ?thesis
    by (auto simp: Client_BatchWrite_def diffWrites_filter convertWrites_find
          split: option.splits)
qed

theorem BatchWrite_differential_filter_witness:
  "filter (retained (memory_of [1, 2, 3, 4]) [5 \<mapsto> FromBytes [1, 2], 6 \<mapsto> FromBytes [9, 9]])
     [\<lparr>Register = 5, Value = FromBytes \<lparr>ptr = 0, len = 2, cap = 2\<rparr>\<rparr>,
      \<lparr>Register = 6, Value = FromBytes \<lparr>ptr = 2, len = 2, cap = 2\<rparr>\<rparr>]
     = [\<lparr>Register = 6, Value = FromBytes \<lparr>ptr = 2, len = 2, cap = 2\<rparr>\<rparr>] \<and>
   (case Client_BatchWrite recording
           [\<lparr>Register = 5, Value = FromBytes \<lparr>ptr = 0, len = 2, cap = 2\<rparr>\<rparr>,
            \<lparr>Register = 6, Value = FromBytes \<lparr>ptr = 2, len = 2, cap = 2\<rparr>\<rparr>]
           (Some [5 \<mapsto> FromBytes [1, 2], 6 \<mapsto> FromBytes [9, 9]])
           (memory_of [1, 2, 3, 4]) [] of
      (err, sent, m') \<Rightarrow> (err, sent)) = (None, [(6, 1, [3, 4])]) \<and>
   (case Client_BatchWrite recording
           [\<lparr>Register = 5, Value = FromBytes \<lparr>ptr = 0, len = 2, cap = 2\<rparr>\<rparr>,
            \<lparr>Register = 6, Value = FromBytes \<lparr>ptr = 2, len = 2, cap = 2\<rparr>\<rparr>]
           None (memory_of [1, 2, 3, 4]) [] of
      (err, sent, m') \<Rightarrow> (err, sent)) = (None, [(5, 2, [1, 2, 3, 4])])"
proof -
  let ?ops = "[\<lparr>Register = 5, Value = FromBytes \<lparr>ptr = 0, len = 2, cap = 2\<rparr>\<rparr>,
               \<lparr>Register = 6, Value = FromBytes \<lparr>ptr = 2, len = 2, cap = 2\<rparr>\<rparr>]"
  let ?old = "[5 \<mapsto> FromBytes [1, 2], 6 \<mapsto> FromBytes [9, 9 :: byte]]"
  let ?m = "memory_of [1, 2, 3, 4]"
  have f: "filter (retained ?m ?old) ?ops
             = [\<lparr>Register = 6, Value = FromBytes \<lparr>ptr = 2, len = 2, cap = 2\<rparr>\<rparr>]"
    by code_simp
  have a: "Client_BatchWrite recording ?ops (Some ?old) ?m []
             = Client_BatchWrite recording (filter (retained ?m ?old) ?ops) None ?m []"
    using BatchWrite_differential_filter [of recording ?ops ?old ?m "[]"] by simp
  have b: "(case Client_BatchWrite recording
                   [\<lparr>Register = 6, Value = FromBytes \<lparr>ptr = 2, len = 2, cap = 2\<rparr>\<rparr>] None ?m [] of
              (err, sent, m') \<Rightarrow> (err, sent)) = (None, [(6, 1, [3, 4])])"
    by code_simp
  have c: "(case Client_BatchWrite recording ?ops None ?m [] of
              (err, sent, m') \<Rightarrow> (err, sent)) = (None, [(5, 2, [1, 2, 3, 4])])"
    by code_simp
  show ?thesis
    unfolding a f using f b c by simp
qed

section \<open>The merge optimizer on every input\<close>

subsection \<open>Arithmetic on registers and quantities\<close>

text \<open>
  The test \<open>preopt[j].register == op.register+op.quantity\<close> is made in 16-bit
  arithmetic.  For an op that does not come before the accumulator in register order it
  says the same as the equation on natural numbers.
\<close>

lemma adjacent_nat:
  fixes a q p :: uint16
  assumes "a \<le> p"
  shows "(p = a + q) = (unat p = unat a + unat q)"
proof -
  have b: "unat a < 65536" "unat q < 65536" "unat p < 65536"
    using unsigned_less [of a] unsigned_less [of q] unsigned_less [of p] by simp_all
  have le: "unat a \<le> unat p" using assms by (simp add: word_le_nat_alt)
  have s: "unat (a + q) = (unat a + unat q) mod 65536"
    by (simp add: unat_word_ariths)
  have "(p = a + q) = (unat p = unat (a + q))"
    by (simp add: word_unat_eq_iff)
  also have "\<dots> = (unat p = unat a + unat q)"
  proof (cases "unat a + unat q < 65536")
    case True
    then show ?thesis by (simp add: s)
  next
    case False
    then have "(unat a + unat q) mod 65536 = unat a + unat q - 65536"
      using b by (simp add: mod_if)
    with False b le show ?thesis by (simp add: s)
  qed
  finally show ?thesis .
qed

lemma quantity_sum:
  fixes q q' :: uint16
  assumes "unat q \<le> 2047" and "unat q' \<le> 2047"
  shows "unat (q + q') = unat q + unat q'"
  using assms by (simp add: unat_word_ariths)

lemma quantity_sum_w:
  fixes q q' :: uint16
  assumes "unat q \<le> 123" and "unat q' \<le> 123"
  shows "unat (q + q') = unat q + unat q'"
  using assms by (simp add: unat_word_ariths)


subsection \<open>The loops of optimizeRead\<close>

lemma mergeable_read_nat:
  assumes "register acc \<le> register p"
      and "unat (quantity acc) \<le> 2047" and "unat (quantity p) \<le> 2047"
  shows "(register p = register acc + quantity acc \<and>
          quantity acc + quantity p \<le> maxFunc3Quantity)
       = (unat (register p) = unat (register acc) + unat (quantity acc) \<and>
          unat (quantity acc) + unat (quantity p) \<le> 2047)"
  using assms
  by (simp add: adjacent_nat maxFunc3Quantity_def word_le_nat_alt quantity_sum)

lemma innerRead_register:
  "innerRead acc i ps = (acc', i') \<Longrightarrow> register acc' = register acc"
  by (induction ps arbitrary: acc i) (auto split: if_splits)

lemma innerRead_quantity:
  assumes "innerRead acc i ps = (acc', i')"
      and "unat (quantity acc) \<le> 2047" and "\<forall>p\<in>set ps. unat (quantity p) \<le> 2047"
  shows "unat (quantity acc') \<le> 2047 \<and> unat (quantity acc) \<le> unat (quantity acc')"
  using assms
proof (induction ps arbitrary: acc i)
  case Nil
  then show ?case by simp
next
  case (Cons p ps)
  show ?case
  proof (cases "register p = register acc + quantity acc \<and>
                quantity acc + quantity p \<le> maxFunc3Quantity")
    case True
    let ?acc1 = "acc\<lparr>quantity := quantity acc + quantity p\<rparr>"
    from Cons.prems have s: "unat (quantity acc + quantity p) = unat (quantity acc) + unat (quantity p)"
      by (simp add: quantity_sum)
    from True have "unat (quantity ?acc1) \<le> 2047"
      by (simp add: maxFunc3Quantity_def word_le_nat_alt)
    moreover from True Cons.prems have "innerRead ?acc1 (i + 1) ps = (acc', i')" by simp
    ultimately have "unat (quantity acc') \<le> 2047 \<and> unat (quantity ?acc1) \<le> unat (quantity acc')"
      using Cons.IH [of ?acc1 "i + 1"] Cons.prems by simp
    with s show ?thesis by simp
  next
    case False
    with Cons.prems have "innerRead acc i ps = (acc', i')" by simp
    with Cons.IH [of acc i] Cons.prems show ?thesis by simp
  qed
qed

lemma innerRead_shift:
  "innerRead acc i ps = (fst (innerRead acc 0 ps), i + snd (innerRead acc 0 ps))"
proof (induction ps arbitrary: acc i)
  case Nil
  then show ?case by simp
next
  case (Cons p ps)
  show ?case
  proof (cases "register p = register acc + quantity acc \<and>
                quantity acc + quantity p \<le> maxFunc3Quantity")
    case True
    let ?acc1 = "acc\<lparr>quantity := quantity acc + quantity p\<rparr>"
    from True have "innerRead acc i (p # ps) = innerRead ?acc1 (i + 1) ps"
      and "innerRead acc 0 (p # ps) = innerRead ?acc1 (0 + 1) ps" by simp_all
    then show ?thesis
      using Cons.IH [of ?acc1 "i + 1"] Cons.IH [of ?acc1 "0 + 1"] by simp
  next
    case False
    then have "innerRead acc i (p # ps) = innerRead acc i ps"
      and "innerRead acc 0 (p # ps) = innerRead acc 0 ps" by auto
    then show ?thesis
      using Cons.IH [of acc i] by simp
  qed
qed

lemma innerRead_none:
  "\<forall>p\<in>set ps. \<not> (register p = register acc + quantity acc \<and>
                    quantity acc + quantity p \<le> maxFunc3Quantity)
   \<Longrightarrow> innerRead acc i ps = (acc, i)"
  by (induction ps) auto

lemma outerRead_mergeRead: "outerRead preopt i opt = opt @ mergeRead (drop i preopt)"
proof (induction preopt i opt rule: outerRead.induct)
  case (1 preopt i opt)
  show ?case
  proof (cases "i < length preopt")
    case True
    obtain op m where om: "innerRead (preopt ! i) 0 (drop (i + 1) preopt) = (op, m)"
      by (cases "innerRead (preopt ! i) 0 (drop (i + 1) preopt)")
    then have sh: "innerRead (preopt ! i) i (drop (i + 1) preopt) = (op, i + m)"
      using innerRead_shift [of "preopt ! i" i "drop (i + 1) preopt"] by simp
    from True have d: "drop i preopt = preopt ! i # drop (i + 1) preopt"
      by (simp add: Cons_nth_drop_Suc)
    have "outerRead preopt i opt = outerRead preopt (i + m + 1) (opt @ [op])"
      using True sh by (subst outerRead.simps) simp
    also have "\<dots> = (opt @ [op]) @ mergeRead (drop (i + m + 1) preopt)"
      using "1.IH" [OF True sh [symmetric]] by simp
    also have "\<dots> = opt @ mergeRead (drop i preopt)"
      using om by (simp add: d add.commute add.left_commute)
    finally show ?thesis .
  next
    case False
    then show ?thesis by (subst outerRead.simps) simp
  qed
qed

lemma optimizeRead_mergeRead: "optimizeRead r = mergeRead (sort_key register r)"
  by (simp add: optimizeRead_def outerRead_mergeRead)


subsection \<open>Slices in memory\<close>

text \<open>
  What \<open>append\<close> leaves in memory.  The bytes of the result are always the bytes of the
  two arguments, one after the other.  What else changes depends on where the first
  argument lives: \<open>owned m b s\<close> says that \<open>s\<close> is either a slice below the address \<open>b\<close>
  without spare capacity, or a block at or above \<open>b\<close>; then \<open>append\<close> to \<open>s\<close> changes no
  cell below \<open>b\<close>.
\<close>

lemma length_load: "length (load m s) = len s"
  by (simp add: load_def)

lemma load_cong:
  "(\<And>a. ptr s \<le> a \<Longrightarrow> a < ptr s + len s \<Longrightarrow> cells m' a = cells m a) \<Longrightarrow> load m' s = load m s"
  by (simp add: load_def)

lemma store_at_range: "map (store_at a bs f) [a ..< a + length bs] = bs"
  by (rule nth_equalityI) (simp_all add: store_at_def)

lemma store_at_outside: "i < a \<or> a + length bs \<le> i \<Longrightarrow> store_at a bs f i = f i"
  by (auto simp: store_at_def)

lemma go_append_load:
  assumes "go_append m s t = (s', m')"
  shows "load m' s' = load m s @ load m t"
proof (cases "len s + len t \<le> cap s")
  case True
  with assms have s': "s' = s\<lparr>len := len s + len t\<rparr>"
    and m': "cells m' = store_at (ptr s + len s) (load m t) (cells m)"
    by (auto simp: go_append_def)
  have "[ptr s ..< ptr s + (len s + len t)] = [ptr s ..< ptr s + len s] @ [ptr s + len s ..< ptr s + len s + len t]"
    using upt_add_eq_append [of "ptr s" "ptr s + len s" "len t"] by (simp add: add.assoc)
  moreover have "map (cells m') [ptr s ..< ptr s + len s] = load m s"
    by (simp add: m' load_def store_at_def)
  moreover have "map (cells m') [ptr s + len s ..< ptr s + len s + len t] = load m t"
    using store_at_range [of "ptr s + len s" "load m t" "cells m"]
    by (simp add: m' length_load)
  ultimately show ?thesis
    by (simp add: s' load_def [of m' ])
next
  case False
  with assms have s': "ptr s' = brk m" "len s' = len s + len t"
    and m': "cells m' = store_at (brk m) (load m s @ load m t) (cells m)"
    by (auto simp: go_append_def Let_def)
  show ?thesis
    using store_at_range [of "brk m" "load m s @ load m t" "cells m"]
    by (simp add: load_def [of m'] s' m' length_load)
qed

lemma go_append_frame:
  assumes "go_append m s t = (s', m')" and "owned m b s" and "b \<le> brk m"
  shows "(\<forall>a<b. cells m' a = cells m a) \<and> brk m \<le> brk m' \<and> owned m' b s' \<and> grow m' = grow m"
proof (cases "len s + len t \<le> cap s")
  case True
  with assms(1) have s': "s' = s\<lparr>len := len s + len t\<rparr>"
    and m': "m' = m\<lparr>cells := store_at (ptr s + len s) (load m t) (cells m)\<rparr>"
    by (auto simp: go_append_def)
  show ?thesis
    using assms(2,3) True
    by (auto simp: s' m' owned_def store_at_def length_load)
next
  case False
  with assms(1) have s': "s' = \<lparr>ptr = brk m, len = len s + len t, cap = max (len s + len t) (grow m (cap s) (len s + len t))\<rparr>"
    and m': "m' = m\<lparr>cells := store_at (brk m) (load m s @ load m t) (cells m),
                     brk := brk m + max (len s + len t) (grow m (cap s) (len s + len t))\<rparr>"
    by (auto simp: go_append_def Let_def)
  show ?thesis
    using assms(2,3) False
    by (auto simp: s' m' owned_def store_at_def length_load)
qed


lemma contents_cong:
  assumes "\<forall>a<b. cells m' a = cells m a" and "ptr (value p) + len (value p) \<le> b"
  shows "contents m' p = contents m p"
  using assms by (simp add: contents_def load_def)

lemma owned_below:
  "owned m b s \<Longrightarrow> b \<le> brk m \<Longrightarrow> ptr s + len s \<le> brk m"
  by (auto simp: owned_def)

subsection \<open>The loops of optimizeWrite\<close>

text \<open>
  When no payload has spare capacity, the loops of \<open>optimizeWrite\<close> compute on the
  contents of the ops what \<open>innerPayload\<close> and \<open>mergePayload\<close> compute, and leave the
  bytes of every input op as they were.
\<close>

lemma innerWrite_contents:
  assumes "innerWrite acc i ps m = (acc', i', m')"
      and "owned m b (value acc)" and "b \<le> brk m"
      and "\<forall>p\<in>set ps. ptr (value p) + len (value p) \<le> b"
  shows "innerPayload (contents m acc) i (map (contents m) ps) = (contents m' acc', i') \<and>
         (\<forall>a<b. cells m' a = cells m a) \<and> brk m \<le> brk m' \<and> owned m' b (value acc')"
  using assms
proof (induction ps arbitrary: acc i m)
  case Nil
  then show ?case by simp
next
  case (Cons p ps)
  show ?case
  proof (cases "register p = register acc + quantity acc \<and>
                quantity acc + quantity p \<le> maxFunc16Quantity")
    case True
    obtain v m1 where ga: "go_append m (value acc) (value p) = (v, m1)"
      by (cases "go_append m (value acc) (value p)")
    let ?acc1 = "acc\<lparr>quantity := quantity acc + quantity p, value := v\<rparr>"
    from True ga Cons.prems(1) have run: "innerWrite ?acc1 (i + 1) ps m1 = (acc', i', m')"
      by simp
    have fr: "(\<forall>a<b. cells m1 a = cells m a) \<and> brk m \<le> brk m1 \<and> owned m1 b v \<and> grow m1 = grow m"
      using go_append_frame [OF ga Cons.prems(2,3)] .
    have ld: "load m1 v = load m (value acc) @ load m (value p)"
      using go_append_load [OF ga] .
    have same: "map (contents m1) ps = map (contents m) ps"
      using fr Cons.prems(4) by (auto intro: contents_cong)
    have c1: "contents m1 ?acc1
                = (contents m acc)\<lparr>quantity := quantity (contents m acc) + quantity (contents m p),
                                    payload := payload (contents m acc) @ payload (contents m p)\<rparr>"
      by (simp add: contents_def ld)
    have ih: "innerPayload (contents m1 ?acc1) (i + 1) (map (contents m1) ps) = (contents m' acc', i') \<and>
         (\<forall>a<b. cells m' a = cells m1 a) \<and> brk m1 \<le> brk m' \<and> owned m' b (value acc')"
    proof (rule Cons.IH [OF run])
      show "owned m1 b (value ?acc1)" using fr by simp
      show "b \<le> brk m1" using fr Cons.prems(3) by simp
      show "\<forall>p\<in>set ps. ptr (value p) + len (value p) \<le> b" using Cons.prems(4) by simp
    qed
    have t: "register (contents m p) = register (contents m acc) + quantity (contents m acc) \<and>
             quantity (contents m acc) + quantity (contents m p) \<le> maxFunc16Quantity"
      using True by (simp add: contents_def)
    have "innerPayload (contents m acc) i (map (contents m) (p # ps))
            = innerPayload (contents m1 ?acc1) (i + 1) (map (contents m) ps)"
      using t by (simp add: c1)
    with ih same fr show ?thesis by simp
  next
    case False
    with Cons.prems(1) have run: "innerWrite acc i ps m = (acc', i', m')" by auto
    have f: "\<not> (register (contents m p) = register (contents m acc) + quantity (contents m acc) \<and>
             quantity (contents m acc) + quantity (contents m p) \<le> maxFunc16Quantity)"
      using False by (simp add: contents_def)
    have "innerPayload (contents m acc) i (map (contents m) (p # ps))
            = innerPayload (contents m acc) i (map (contents m) ps)"
      using f by auto
    moreover have "innerPayload (contents m acc) i (map (contents m) ps) = (contents m' acc', i') \<and>
         (\<forall>a<b. cells m' a = cells m a) \<and> brk m \<le> brk m' \<and> owned m' b (value acc')"
      using Cons.IH [OF run Cons.prems(2,3)] Cons.prems(4) by simp
    ultimately show ?thesis by simp
  qed
qed

lemma innerPayload_shift:
  "innerPayload acc i ps = (fst (innerPayload acc 0 ps), i + snd (innerPayload acc 0 ps))"
proof (induction ps arbitrary: acc i)
  case Nil
  then show ?case by simp
next
  case (Cons p ps)
  show ?case
  proof (cases "register p = register acc + quantity acc \<and>
                quantity acc + quantity p \<le> maxFunc16Quantity")
    case True
    let ?acc1 = "acc\<lparr>quantity := quantity acc + quantity p, payload := payload acc @ payload p\<rparr>"
    from True have "innerPayload acc i (p # ps) = innerPayload ?acc1 (i + 1) ps"
      and "innerPayload acc 0 (p # ps) = innerPayload ?acc1 (0 + 1) ps" by simp_all
    then show ?thesis
      using Cons.IH [of ?acc1 "i + 1"] Cons.IH [of ?acc1 "0 + 1"] by simp
  next
    case False
    then have "innerPayload acc i (p # ps) = innerPayload acc i ps"
      and "innerPayload acc 0 (p # ps) = innerPayload acc 0 ps" by auto
    then show ?thesis
      using Cons.IH [of acc i] by simp
  qed
qed

lemma innerPayload_none:
  "\<forall>p\<in>set ps. \<not> (register p = register acc + quantity acc \<and>
                    quantity acc + quantity p \<le> maxFunc16Quantity)
   \<Longrightarrow> innerPayload acc i ps = (acc, i)"
  by (induction ps) auto

lemma outerWrite_contents:
  assumes "outerWrite preopt i opt m = (opt', m')"
      and "\<forall>p\<in>set preopt. no_spare_capacity m (value p)"
      and "\<forall>p\<in>set opt. ptr (value p) + len (value p) \<le> brk m"
  shows "map (contents m') opt' = map (contents m) opt @ mergePayload (drop i (map (contents m) preopt)) \<and>
         (\<forall>p\<in>set preopt. contents m' p = contents m p) \<and> brk m \<le> brk m'"
  using assms
proof (induction preopt i opt m rule: outerWrite.induct)
  case (1 preopt i opt m)
  show ?case
  proof (cases "i < length preopt")
    case True
    obtain op i' m1 where run: "innerWrite (preopt ! i) i (drop (i + 1) preopt) m = (op, i', m1)"
      by (cases "innerWrite (preopt ! i) i (drop (i + 1) preopt) m") auto
    have mem: "preopt ! i \<in> set preopt" using True by simp
    have ow: "owned m (brk m) (value (preopt ! i))"
      using "1.prems"(2) mem by (auto simp: no_spare_capacity_def owned_def)
    have below: "\<forall>p\<in>set (drop (i + 1) preopt). ptr (value p) + len (value p) \<le> brk m"
      using "1.prems"(2) by (auto simp: no_spare_capacity_def dest: in_set_dropD)
    have sim: "innerPayload (contents m (preopt ! i)) i (map (contents m) (drop (i + 1) preopt))
                 = (contents m1 op, i') \<and>
               (\<forall>a<brk m. cells m1 a = cells m a) \<and> brk m \<le> brk m1 \<and> owned m1 (brk m) (value op)"
      using innerWrite_contents [OF run ow _ below] by simp
    have next_run: "outerWrite preopt (i' + 1) (opt @ [op]) m1 = (opt', m')"
      using "1.prems"(1) True run by (subst (asm) outerWrite.simps) simp
    have pre1: "\<forall>p\<in>set preopt. no_spare_capacity m1 (value p)"
      using "1.prems"(2) sim by (auto simp: no_spare_capacity_def)
    have opb: "ptr (value op) + len (value op) \<le> brk m1"
      using sim owned_below [of m1 "brk m" "value op"] by simp
    have opt1: "\<forall>p\<in>set (opt @ [op]). ptr (value p) + len (value p) \<le> brk m1"
      using "1.prems"(3) sim opb by auto
    have ih: "map (contents m') opt' = map (contents m1) (opt @ [op])
                 @ mergePayload (drop (i' + 1) (map (contents m1) preopt)) \<and>
              (\<forall>p\<in>set preopt. contents m' p = contents m1 p) \<and> brk m1 \<le> brk m'"
      using "1.IH" [OF True run [symmetric] refl next_run pre1 opt1] .
    have same_pre: "\<forall>p\<in>set preopt. contents m1 p = contents m p"
      using "1.prems"(2) sim by (auto simp: no_spare_capacity_def intro: contents_cong)
    then have same_map: "map (contents m1) preopt = map (contents m) preopt" by simp
    have same_opt: "map (contents m1) opt = map (contents m) opt"
      using "1.prems"(3) sim by (auto intro: contents_cong)
    let ?xs = "map (contents m) preopt"
    have d: "drop i ?xs = contents m (preopt ! i) # map (contents m) (drop (i + 1) preopt)"
      using True by (simp add: Cons_nth_drop_Suc [symmetric] drop_map)
    obtain k where k: "innerPayload (contents m (preopt ! i)) 0 (map (contents m) (drop (i + 1) preopt))
                         = (contents m1 op, k)" and i': "i' = i + k"
      using sim innerPayload_shift [of "contents m (preopt ! i)" i "map (contents m) (drop (i + 1) preopt)"]
      by (cases "innerPayload (contents m (preopt ! i)) 0 (map (contents m) (drop (i + 1) preopt))") auto
    have dd: "drop k (map (contents m) (drop (i + 1) preopt)) = drop (i' + 1) ?xs"
      by (simp add: i' drop_map add.commute add.left_commute)
    have "mergePayload (drop i ?xs) = contents m1 op # mergePayload (drop (i' + 1) ?xs)"
      unfolding d using k dd by simp
    moreover have "brk m \<le> brk m'" using sim ih by simp
    ultimately show ?thesis using ih same_map same_opt same_pre by simp
  next
    case False
    with "1.prems"(1) show ?thesis by (subst (asm) outerWrite.simps) simp
  qed
qed

subsection \<open>The optimizer on non-overlapping input\<close>

lemma unat_sum_le:
  fixes q q' :: uint16
  shows "unat (q + q') \<le> unat q + unat q'"
  by (simp add: unat_word_ariths)

lemma innerRead_greedy:
  assumes "\<forall>p\<in>set ps. unat (register acc) + unat (quantity acc) \<le> unat (register p)"
      and "sorted_wrt (\<lambda>a b. unat (register a) + unat (quantity a) \<le> unat (register b)) ps"
      and "distinct (map register ps)"
      and "innerRead acc 0 ps = (acc', m)"
  shows "greedyRead acc ps = acc' # (case drop m ps of [] \<Rightarrow> [] | y # ys \<Rightarrow> greedyRead y ys)"
  using assms
proof (induction ps arbitrary: acc acc' m)
  case Nil
  then show ?case by simp
next
  case (Cons p ps)
  have e: "unat (register acc) + unat (quantity acc) \<le> unat (register p)"
    using Cons.prems(1) by simp
  then have le: "register acc \<le> register p"
    by (simp add: word_le_nat_alt)
  show ?case
  proof (cases "register p = register acc + quantity acc \<and>
                quantity acc + quantity p \<le> maxFunc3Quantity")
    case True
    let ?acc1 = "acc\<lparr>quantity := quantity acc + quantity p\<rparr>"
    from True have n: "unat (register p) = unat (register acc) + unat (quantity acc)"
      using adjacent_nat [OF le, of "quantity acc"] by simp
    obtain m' where m': "innerRead ?acc1 0 ps = (acc', m')" and m: "m = m' + 1"
    proof -
      from True Cons.prems(4) have "innerRead ?acc1 (0 + 1) ps = (acc', m)" by simp
      then have "fst (innerRead ?acc1 0 ps) = acc'" and "m = 1 + snd (innerRead ?acc1 0 ps)"
        using innerRead_shift [of ?acc1 "0 + 1" ps] by simp_all
      then show ?thesis using that [of "snd (innerRead ?acc1 0 ps)"] by (simp add: prod_eq_iff)
    qed
    have "greedyRead ?acc1 ps = acc' # (case drop m' ps of [] \<Rightarrow> [] | y # ys \<Rightarrow> greedyRead y ys)"
    proof (rule Cons.IH [OF _ _ _ m'])
      show "\<forall>p'\<in>set ps. unat (register ?acc1) + unat (quantity ?acc1) \<le> unat (register p')"
      proof
        fix p' assume "p' \<in> set ps"
        then have "unat (register p) + unat (quantity p) \<le> unat (register p')"
          using Cons.prems(2) by simp
        with n unat_sum_le [of "quantity acc" "quantity p"]
        show "unat (register ?acc1) + unat (quantity ?acc1) \<le> unat (register p')" by simp
      qed
      show "sorted_wrt (\<lambda>a b. unat (register a) + unat (quantity a) \<le> unat (register b)) ps"
        using Cons.prems(2) by simp
      show "distinct (map register ps)"
        using Cons.prems(3) by simp
    qed
    with True m show ?thesis by simp
  next
    case False
    have none: "\<forall>p'\<in>set ps. \<not> (register p' = register acc + quantity acc \<and>
                    quantity acc + quantity p' \<le> maxFunc3Quantity)"
    proof
      fix p' assume p': "p' \<in> set ps"
      then have far: "unat (register p) + unat (quantity p) \<le> unat (register p')"
        using Cons.prems(2) by simp
      have ne: "register p' \<noteq> register p"
      proof
        assume "register p' = register p"
        with p' have "register p \<in> register ` set ps" by (metis imageI)
        with Cons.prems(3) show False by simp
      qed
      have "unat (register acc) + unat (quantity acc) \<le> unat (register p')"
        using Cons.prems(1) p' by simp
      then have le': "register acc \<le> register p'" by (simp add: word_le_nat_alt)
      have "unat (register p') \<noteq> unat (register acc) + unat (quantity acc)"
      proof
        assume "unat (register p') = unat (register acc) + unat (quantity acc)"
        with e far have "unat (register p') = unat (register p)" by simp
        with ne show False by (simp add: word_unat_eq_iff)
      qed
      then show "\<not> (register p' = register acc + quantity acc \<and>
                    quantity acc + quantity p' \<le> maxFunc3Quantity)"
        using adjacent_nat [OF le', of "quantity acc"] by simp
    qed
    from False have "innerRead acc 0 (p # ps) = innerRead acc 0 ps" by auto
    with none Cons.prems(4) have "acc' = acc" "m = 0"
      by (simp_all add: innerRead_none)
    with False show ?thesis by auto
  qed
qed

lemma mergeRead_greedy:
  assumes "sorted_wrt (\<lambda>a b. unat (register a) + unat (quantity a) \<le> unat (register b)) xs"
      and "distinct (map register xs)"
  shows "mergeRead xs = (case xs of [] \<Rightarrow> [] | x # rest \<Rightarrow> greedyRead x rest)"
  using assms
proof (induction xs rule: mergeRead.induct)
  case 1
  then show ?case by simp
next
  case (2 x xs)
  obtain op m where om: "innerRead x 0 xs = (op, m)"
    by (cases "innerRead x 0 xs")
  have g: "greedyRead x xs = op # (case drop m xs of [] \<Rightarrow> [] | y # ys \<Rightarrow> greedyRead y ys)"
    using "2.prems" by (intro innerRead_greedy [OF _ _ _ om]) simp_all
  have "mergeRead (drop m xs) = (case drop m xs of [] \<Rightarrow> [] | y # ys \<Rightarrow> greedyRead y ys)"
  proof (rule "2.IH" [OF om [symmetric]])
    show "sorted_wrt (\<lambda>a b. unat (register a) + unat (quantity a) \<le> unat (register b))
            (drop m xs)"
      using "2.prems"(1) by (simp add: sorted_wrt_drop)
    show "distinct (map register (drop m xs))"
      using "2.prems"(2) by (simp add: drop_map [symmetric])
  qed
  with om g show ?case by simp
qed

lemma optimizeRead_spec:
  assumes "distinct (map register r)" and "disjoint_ranges r"
  shows "optimizeRead r = spec_optimizeRead r"
proof -
  have "distinct (map register (sort_key register r))"
    using assms(1) by (simp add: distinct_map)
  with assms(2) show ?thesis
    unfolding optimizeRead_mergeRead spec_optimizeRead_def disjoint_ranges_def
    by (intro mergeRead_greedy)
qed


lemma innerPayload_greedy:
  assumes "\<forall>p\<in>set ps. unat (register acc) + unat (quantity acc) \<le> unat (register p)"
      and "sorted_wrt (\<lambda>a b. unat (register a) + unat (quantity a) \<le> unat (register b)) ps"
      and "distinct (map register ps)"
      and "innerPayload acc 0 ps = (acc', m)"
  shows "greedyWrite acc ps = acc' # (case drop m ps of [] \<Rightarrow> [] | y # ys \<Rightarrow> greedyWrite y ys)"
  using assms
proof (induction ps arbitrary: acc acc' m)
  case Nil
  then show ?case by simp
next
  case (Cons p ps)
  have e: "unat (register acc) + unat (quantity acc) \<le> unat (register p)"
    using Cons.prems(1) by simp
  then have le: "register acc \<le> register p"
    by (simp add: word_le_nat_alt)
  show ?case
  proof (cases "register p = register acc + quantity acc \<and>
                quantity acc + quantity p \<le> maxFunc16Quantity")
    case True
    let ?acc1 = "acc\<lparr>quantity := quantity acc + quantity p, payload := payload acc @ payload p\<rparr>"
    from True have n: "unat (register p) = unat (register acc) + unat (quantity acc)"
      using adjacent_nat [OF le, of "quantity acc"] by simp
    obtain m' where m': "innerPayload ?acc1 0 ps = (acc', m')" and m: "m = m' + 1"
    proof -
      from True Cons.prems(4) have "innerPayload ?acc1 (0 + 1) ps = (acc', m)" by simp
      then have "fst (innerPayload ?acc1 0 ps) = acc'" and "m = 1 + snd (innerPayload ?acc1 0 ps)"
        using innerPayload_shift [of ?acc1 "0 + 1" ps] by simp_all
      then show ?thesis using that [of "snd (innerPayload ?acc1 0 ps)"] by (simp add: prod_eq_iff)
    qed
    have "greedyWrite ?acc1 ps = acc' # (case drop m' ps of [] \<Rightarrow> [] | y # ys \<Rightarrow> greedyWrite y ys)"
    proof (rule Cons.IH [OF _ _ _ m'])
      show "\<forall>p'\<in>set ps. unat (register ?acc1) + unat (quantity ?acc1) \<le> unat (register p')"
      proof
        fix p' assume "p' \<in> set ps"
        then have "unat (register p) + unat (quantity p) \<le> unat (register p')"
          using Cons.prems(2) by simp
        with n unat_sum_le [of "quantity acc" "quantity p"]
        show "unat (register ?acc1) + unat (quantity ?acc1) \<le> unat (register p')" by simp
      qed
      show "sorted_wrt (\<lambda>a b. unat (register a) + unat (quantity a) \<le> unat (register b)) ps"
        using Cons.prems(2) by simp
      show "distinct (map register ps)"
        using Cons.prems(3) by simp
    qed
    with True m show ?thesis by simp
  next
    case False
    have none: "\<forall>p'\<in>set ps. \<not> (register p' = register acc + quantity acc \<and>
                    quantity acc + quantity p' \<le> maxFunc16Quantity)"
    proof
      fix p' assume p': "p' \<in> set ps"
      then have far: "unat (register p) + unat (quantity p) \<le> unat (register p')"
        using Cons.prems(2) by simp
      have ne: "register p' \<noteq> register p"
      proof
        assume "register p' = register p"
        with p' have "register p \<in> register ` set ps" by (metis imageI)
        with Cons.prems(3) show False by simp
      qed
      have "unat (register acc) + unat (quantity acc) \<le> unat (register p')"
        using Cons.prems(1) p' by simp
      then have le': "register acc \<le> register p'" by (simp add: word_le_nat_alt)
      have "unat (register p') \<noteq> unat (register acc) + unat (quantity acc)"
      proof
        assume "unat (register p') = unat (register acc) + unat (quantity acc)"
        with e far have "unat (register p') = unat (register p)" by simp
        with ne show False by (simp add: word_unat_eq_iff)
      qed
      then show "\<not> (register p' = register acc + quantity acc \<and>
                    quantity acc + quantity p' \<le> maxFunc16Quantity)"
        using adjacent_nat [OF le', of "quantity acc"] by simp
    qed
    from False have "innerPayload acc 0 (p # ps) = innerPayload acc 0 ps" by auto
    with none Cons.prems(4) have "acc' = acc" "m = 0"
      by (simp_all add: innerPayload_none)
    with False show ?thesis by auto
  qed
qed

lemma mergePayload_greedy:
  assumes "sorted_wrt (\<lambda>a b. unat (register a) + unat (quantity a) \<le> unat (register b)) xs"
      and "distinct (map register xs)"
  shows "mergePayload xs = (case xs of [] \<Rightarrow> [] | x # rest \<Rightarrow> greedyWrite x rest)"
  using assms
proof (induction xs rule: mergePayload.induct)
  case 1
  then show ?case by simp
next
  case (2 x xs)
  obtain op m where om: "innerPayload x 0 xs = (op, m)"
    by (cases "innerPayload x 0 xs")
  have g: "greedyWrite x xs = op # (case drop m xs of [] \<Rightarrow> [] | y # ys \<Rightarrow> greedyWrite y ys)"
    using "2.prems" by (intro innerPayload_greedy [OF _ _ _ om]) simp_all
  have "mergePayload (drop m xs) = (case drop m xs of [] \<Rightarrow> [] | y # ys \<Rightarrow> greedyWrite y ys)"
  proof (rule "2.IH" [OF om [symmetric]])
    show "sorted_wrt (\<lambda>a b. unat (register a) + unat (quantity a) \<le> unat (register b))
            (drop m xs)"
      using "2.prems"(1) by (simp add: sorted_wrt_drop)
    show "distinct (map register (drop m xs))"
      using "2.prems"(2) by (simp add: drop_map [symmetric])
  qed
  with om g show ?case by simp
qed


lemma insort_key_contents:
  "insort_key register (contents m x) (map (contents m) xs)
     = map (contents m) (insort_key register x xs)"
  by (induction xs) (simp_all add: contents_def)

lemma sort_key_contents:
  "sort_key register (map (contents m) xs) = map (contents m) (sort_key register xs)"
  by (induction xs) (simp_all add: sort_key_simps insort_key_contents)

lemma optimizeWrite_spec:
  assumes "distinct (map register w)" and "disjoint_ranges w"
      and "\<forall>op\<in>set w. no_spare_capacity m (value op)"
      and "optimizeWrite w m = (opt, m')"
  shows "map (contents m') opt = spec_optimizeWrite (map (contents m) w) \<and>
         (\<forall>op\<in>set w. load m' (value op) = load m (value op))"
proof -
  let ?xs = "sort_key register w"
  have run: "outerWrite ?xs 0 [] m = (opt, m')"
    using assms(4) by (simp add: optimizeWrite_def)
  have "\<forall>p\<in>set ?xs. no_spare_capacity m (value p)"
    using assms(3) by simp
  then have sim: "map (contents m') opt = map (contents m) [] @ mergePayload (drop 0 (map (contents m) ?xs)) \<and>
                  (\<forall>p\<in>set ?xs. contents m' p = contents m p) \<and> brk m \<le> brk m'"
    by (intro outerWrite_contents [OF run]) simp_all
  have reg: "map register (map (contents m) ?xs) = map register ?xs"
    by (simp add: contents_def)
  have d: "distinct (map register (map (contents m) ?xs))"
    unfolding reg using assms(1) by (simp add: distinct_map)
  have s: "sorted_wrt (\<lambda>a b. unat (register a) + unat (quantity a) \<le> unat (register b))
             (map (contents m) ?xs)"
    using assms(2) by (simp add: disjoint_ranges_def sorted_wrt_map contents_def)
  have "mergePayload (map (contents m) ?xs)
          = (case map (contents m) ?xs of [] \<Rightarrow> [] | x # rest \<Rightarrow> greedyWrite x rest)"
    using s d by (rule mergePayload_greedy)
  then have "map (contents m') opt = spec_optimizeWrite (map (contents m) w)"
    using sim by (simp add: spec_optimizeWrite_def sort_key_contents)
  moreover have "\<forall>op\<in>set w. load m' (value op) = load m (value op)"
  proof
    fix op assume "op \<in> set w"
    then have "contents m' op = contents m op" using sim by simp
    then show "load m' (value op) = load m (value op)" by (simp add: contents_def)
  qed
  ultimately show ?thesis by simp
qed

text \<open>
  For two reads the claim C1 holds as written: when the second starts where the first
  ends, they become one op exactly when the sum of the two quantities is within the
  ceiling.
\<close>

lemma optimizeRead_pair:
  assumes "register a \<le> register b" and "register b = register a + quantity a"
  shows "optimizeRead [a, b] =
           (if quantity a + quantity b \<le> maxFunc3Quantity
            then [a\<lparr>quantity := quantity a + quantity b\<rparr>] else [a, b])"
  using assms by (simp add: optimizeRead_mergeRead)

text \<open>
  Without the condition on capacity the bytes of an op can change under the optimizer.
  Three payloads cut from one buffer of ten bytes: \<open>buf[0:2]\<close> for register 5 (its capacity
  reaches to the fourth byte), \<open>buf[4:6]\<close> for register 6 and \<open>buf[2:4]\<close> for register 10.
  Merging the op at 6 into the op at 5 appends in place, over the bytes of the op at 10:
  it is emitted with the bytes 5, 6 instead of 3, 4.
\<close>

lemma optimizeWrite_shared_buffer:
  "(case optimizeWrite
           [\<lparr>register = 5, quantity = 1, value = \<lparr>ptr = 0, len = 2, cap = 4\<rparr>\<rparr>,
            \<lparr>register = 6, quantity = 1, value = \<lparr>ptr = 4, len = 2, cap = 2\<rparr>\<rparr>,
            \<lparr>register = 10, quantity = 1, value = \<lparr>ptr = 2, len = 2, cap = 2\<rparr>\<rparr>]
           (memory_of [1, 2, 3, 4, 5, 6, 7, 8, 9, 10]) of
      (opt, m') \<Rightarrow> map (contents m') opt)
     = [\<lparr>register = 5, quantity = 2, payload = [1, 2, 5, 6]\<rparr>,
        \<lparr>register = 10, quantity = 1, payload = [5, 6]\<rparr>] \<and>
   spec_optimizeWrite
       [\<lparr>register = 5, quantity = 1, payload = [1, 2]\<rparr>,
        \<lparr>register = 6, quantity = 1, payload = [5, 6]\<rparr>,
        \<lparr>register = 10, quantity = 1, payload = [3, 4]\<rparr>]
     = [\<lparr>register = 5, quantity = 2, payload = [1, 2, 5, 6]\<rparr>,
        \<lparr>register = 10, quantity = 1, payload = [3, 4]\<rparr>]"
  by code_simp

text \<open>
  C1.  The claim: of two ops that are consecutive in register order and adjacent, the
  optimizer makes one op exactly when the sum of their two quantities is at most the
  ceiling.  The code compares the ceiling with the quantity of the op built so far plus
  the next quantity.  Three adjacent reads of 1000 registers each: the second and third
  are adjacent and sum to 2000, yet the third stays on its own, because the first two
  have already been merged.  Likewise for three writes of 60 registers, each with a
  payload of 120 bytes of its own.
\<close>

theorem optimize_summed_quantity_counterexample:
  "disjoint_ranges [\<lparr>register = 0, quantity = 1000\<rparr>, \<lparr>register = 1000, quantity = 1000\<rparr>,
                    \<lparr>register = 2000, quantity = 1000\<rparr>] \<and>
   register \<lparr>register = 2000, quantity = 1000\<rparr>
     = register \<lparr>register = 1000, quantity = 1000\<rparr> + quantity \<lparr>register = 1000, quantity = 1000\<rparr> \<and>
   quantity \<lparr>register = 1000, quantity = 1000\<rparr> + quantity \<lparr>register = 2000, quantity = 1000\<rparr>
     \<le> maxFunc3Quantity \<and>
   optimizeRead [\<lparr>register = 0, quantity = 1000\<rparr>, \<lparr>register = 1000, quantity = 1000\<rparr>,
                 \<lparr>register = 2000, quantity = 1000\<rparr>]
     = [\<lparr>register = 0, quantity = 2000\<rparr>, \<lparr>register = 2000, quantity = 1000\<rparr>] \<and>
   disjoint_ranges [\<lparr>register = 0, quantity = 60, value = \<lparr>ptr = 0, len = 120, cap = 120\<rparr>\<rparr>,
                    \<lparr>register = 60, quantity = 60, value = \<lparr>ptr = 120, len = 120, cap = 120\<rparr>\<rparr>,
                    \<lparr>register = 120, quantity = 60, value = \<lparr>ptr = 240, len = 120, cap = 120\<rparr>\<rparr>] \<and>
   (case optimizeWrite
           [\<lparr>register = 0, quantity = 60, value = \<lparr>ptr = 0, len = 120, cap = 120\<rparr>\<rparr>,
            \<lparr>register = 60, quantity = 60, value = \<lparr>ptr = 120, len = 120, cap = 120\<rparr>\<rparr>,
            \<lparr>register = 120, quantity = 60, value = \<lparr>ptr = 240, len = 120, cap = 120\<rparr>\<rparr>]
           (memory_of (replicate 120 1 @ replicate 120 2 @ replicate 120 3)) of
      (opt, m') \<Rightarrow> map (contents m') opt)
     = [\<lparr>register = 0, quantity = 120, payload = replicate 120 1 @ replicate 120 2\<rparr>,
        \<lparr>register = 120, quantity = 60, payload = replicate 120 3\<rparr>]"
  by code_simp

text \<open>
  C1, amended.  On read ops with distinct registers and ranges that do not overlap,
  \<open>optimizeRead\<close> is the left-to-right merge of the specification: the next op in
  register order is merged exactly when it starts where the op built so far ends and the
  quantity built so far plus its own is at most 2047; otherwise the op built so far is
  emitted and a new one starts there.  On write ops with distinct registers and ranges
  that do not overlap, whose payloads lie in allocated memory and have no spare capacity
  (\<open>cap = len\<close>), the ops \<open>optimizeWrite\<close> returns hold, read in the memory it leaves,
  the same merge with ceiling 123 of the input ops' registers, quantities and bytes, the
  bytes of each merged op appended in register order; and the bytes of every input
  payload are what they were.  (The registers are distinct because Go does not fix the
  order in which \<open>sort.Slice\<close> leaves equal keys.)
\<close>

theorem optimize_is_greedy_merge:
  "(distinct (map register r) \<and> disjoint_ranges r
      \<longrightarrow> optimizeRead r = spec_optimizeRead r) \<and>
   (distinct (map register w) \<and> disjoint_ranges w \<and>
    (\<forall>op\<in>set w. no_spare_capacity m (value op))
      \<longrightarrow> (case optimizeWrite w m of
             (opt, m') \<Rightarrow>
               map (contents m') opt = spec_optimizeWrite (map (contents m) w) \<and>
               (\<forall>op\<in>set w. load m' (value op) = load m (value op))))"
proof (intro conjI impI)
  assume "distinct (map register r) \<and> disjoint_ranges r"
  then show "optimizeRead r = spec_optimizeRead r"
    by (simp add: optimizeRead_spec)
next
  assume h: "distinct (map register w) \<and> disjoint_ranges w \<and>
             (\<forall>op\<in>set w. no_spare_capacity m (value op))"
  obtain opt m' where run: "optimizeWrite w m = (opt, m')"
    by (cases "optimizeWrite w m")
  from h have "map (contents m') opt = spec_optimizeWrite (map (contents m) w) \<and>
               (\<forall>op\<in>set w. load m' (value op) = load m (value op))"
    by (intro optimizeWrite_spec [OF _ _ _ run]) simp_all
  with run show "case optimizeWrite w m of
             (opt, m') \<Rightarrow>
               map (contents m') opt = spec_optimizeWrite (map (contents m) w) \<and>
               (\<forall>op\<in>set w. load m' (value op) = load m (value op))"
    by simp
qed

theorem optimize_is_greedy_merge_witness:
  "distinct (map register [\<lparr>register = 2, quantity = 2\<rparr>, \<lparr>register = 4, quantity = 2\<rparr>,
                           \<lparr>register = 7, quantity = 1\<rparr>]) \<and>
   disjoint_ranges [\<lparr>register = 2, quantity = 2\<rparr>, \<lparr>register = 4, quantity = 2\<rparr>,
                    \<lparr>register = 7, quantity = 1\<rparr>] \<and>
   optimizeRead [\<lparr>register = 2, quantity = 2\<rparr>, \<lparr>register = 4, quantity = 2\<rparr>,
                 \<lparr>register = 7, quantity = 1\<rparr>]
     = spec_optimizeRead [\<lparr>register = 2, quantity = 2\<rparr>, \<lparr>register = 4, quantity = 2\<rparr>,
                          \<lparr>register = 7, quantity = 1\<rparr>] \<and>
   spec_optimizeRead [\<lparr>register = 2, quantity = 2\<rparr>, \<lparr>register = 4, quantity = 2\<rparr>,
                      \<lparr>register = 7, quantity = 1\<rparr>]
     = [\<lparr>register = 2, quantity = 4\<rparr>, \<lparr>register = 7, quantity = 1\<rparr>] \<and>
   distinct (map register
     [\<lparr>register = 12, quantity = 1, value = \<lparr>ptr = 2, len = 2, cap = 2\<rparr>\<rparr>,
      \<lparr>register = 10, quantity = 2, value = \<lparr>ptr = 4, len = 4, cap = 4\<rparr>\<rparr>,
      \<lparr>register = 20, quantity = 1, value = \<lparr>ptr = 0, len = 2, cap = 2\<rparr>\<rparr>]) \<and>
   disjoint_ranges
     [\<lparr>register = 12, quantity = 1, value = \<lparr>ptr = 2, len = 2, cap = 2\<rparr>\<rparr>,
      \<lparr>register = 10, quantity = 2, value = \<lparr>ptr = 4, len = 4, cap = 4\<rparr>\<rparr>,
      \<lparr>register = 20, quantity = 1, value = \<lparr>ptr = 0, len = 2, cap = 2\<rparr>\<rparr>] \<and>
   no_spare_capacity (memory_of [1, 2, 3, 4, 5, 6, 7, 8]) \<lparr>ptr = 2, len = 2, cap = 2\<rparr> \<and>
   no_spare_capacity (memory_of [1, 2, 3, 4, 5, 6, 7, 8]) \<lparr>ptr = 4, len = 4, cap = 4\<rparr> \<and>
   no_spare_capacity (memory_of [1, 2, 3, 4, 5, 6, 7, 8]) \<lparr>ptr = 0, len = 2, cap = 2\<rparr> \<and>
   (case optimizeWrite
           [\<lparr>register = 12, quantity = 1, value = \<lparr>ptr = 2, len = 2, cap = 2\<rparr>\<rparr>,
            \<lparr>register = 10, quantity = 2, value = \<lparr>ptr = 4, len = 4, cap = 4\<rparr>\<rparr>,
            \<lparr>register = 20, quantity = 1, value = \<lparr>ptr = 0, len = 2, cap = 2\<rparr>\<rparr>]
           (memory_of [1, 2, 3, 4, 5, 6, 7, 8]) of
      (opt, m') \<Rightarrow> map (contents m') opt)
     = spec_optimizeWrite
         [\<lparr>register = 12, quantity = 1, payload = [3, 4]\<rparr>,
          \<lparr>register = 10, quantity = 2, payload = [5, 6, 7, 8]\<rparr>,
          \<lparr>register = 20, quantity = 1, payload = [1, 2]\<rparr>] \<and>
   spec_optimizeWrite
       [\<lparr>register = 12, quantity = 1, payload = [3, 4]\<rparr>,
        \<lparr>register = 10, quantity = 2, payload = [5, 6, 7, 8]\<rparr>,
        \<lparr>register = 20, quantity = 1, payload = [1, 2]\<rparr>]
     = [\<lparr>register = 10, quantity = 3, payload = [5, 6, 7, 8, 3, 4]\<rparr>,
        \<lparr>register = 20, quantity = 1, payload = [1, 2]\<rparr>]"
proof -
  let ?r = "[\<lparr>register = 2, quantity = 2\<rparr>, \<lparr>register = 4, quantity = 2\<rparr>,
             \<lparr>register = 7, quantity = 1\<rparr>]"
  let ?w = "[\<lparr>register = 12, quantity = 1, value = \<lparr>ptr = 2, len = 2, cap = 2\<rparr>\<rparr>,
             \<lparr>register = 10, quantity = 2, value = \<lparr>ptr = 4, len = 4, cap = 4\<rparr>\<rparr>,
             \<lparr>register = 20, quantity = 1, value = \<lparr>ptr = 0, len = 2, cap = 2\<rparr>\<rparr>]"
  let ?m = "memory_of [1, 2, 3, 4, 5, 6, 7, 8]"
  have hr: "distinct (map register ?r) \<and> disjoint_ranges ?r"
    by (simp add: disjoint_ranges_def)
  have hw: "distinct (map register ?w) \<and> disjoint_ranges ?w"
    by (simp add: disjoint_ranges_def)
  have hc: "no_spare_capacity ?m \<lparr>ptr = 2, len = 2, cap = 2\<rparr> \<and>
            no_spare_capacity ?m \<lparr>ptr = 4, len = 4, cap = 4\<rparr> \<and>
            no_spare_capacity ?m \<lparr>ptr = 0, len = 2, cap = 2\<rparr>"
    by (simp add: no_spare_capacity_def memory_of_def)
  have c: "map (contents ?m) ?w
             = [\<lparr>register = 12, quantity = 1, payload = [3, 4]\<rparr>,
                \<lparr>register = 10, quantity = 2, payload = [5, 6, 7, 8]\<rparr>,
                \<lparr>register = 20, quantity = 1, payload = [1, 2]\<rparr>]"
    by code_simp
  have s: "spec_optimizeRead ?r = [\<lparr>register = 2, quantity = 4\<rparr>, \<lparr>register = 7, quantity = 1\<rparr>]"
    by (simp add: spec_optimizeRead_def maxFunc3Quantity_def)
  have t: "spec_optimizeWrite
             [\<lparr>register = 12, quantity = 1, payload = [3, 4]\<rparr>,
              \<lparr>register = 10, quantity = 2, payload = [5, 6, 7, 8]\<rparr>,
              \<lparr>register = 20, quantity = 1, payload = [1, 2]\<rparr>]
           = [\<lparr>register = 10, quantity = 3, payload = [5, 6, 7, 8, 3, 4]\<rparr>,
              \<lparr>register = 20, quantity = 1, payload = [1, 2]\<rparr>]"
    by (simp add: spec_optimizeWrite_def maxFunc16Quantity_def)
  from optimize_is_greedy_merge [of ?r ?w ?m] hr hw hc
  have "optimizeRead ?r = spec_optimizeRead ?r"
    and "(case optimizeWrite ?w ?m of (opt, m') \<Rightarrow> map (contents m') opt)
           = spec_optimizeWrite (map (contents ?m) ?w)"
    by (simp_all split: prod.splits)
  with hr hw hc s t show ?thesis
    unfolding c by simp
qed

subsection \<open>Running the optimizer twice\<close>

lemma innerRead_grows:
  assumes "innerRead acc i ps = (acc', i')"
      and "unat (quantity acc) \<le> 2047"
      and "\<forall>p\<in>set ps. 1 \<le> unat (quantity p) \<and> unat (quantity p) \<le> 2047"
  shows "acc' = acc \<or> unat (quantity acc) < unat (quantity acc')"
  using assms
proof (induction ps arbitrary: acc i)
  case Nil
  then show ?case by simp
next
  case (Cons p ps)
  show ?case
  proof (cases "register p = register acc + quantity acc \<and>
                quantity acc + quantity p \<le> maxFunc3Quantity")
    case True
    let ?acc1 = "acc\<lparr>quantity := quantity acc + quantity p\<rparr>"
    have s: "unat (quantity acc + quantity p) = unat (quantity acc) + unat (quantity p)"
      using Cons.prems by (simp add: quantity_sum)
    from True Cons.prems have m: "innerRead ?acc1 (i + 1) ps = (acc', i')" by simp
    from True have "unat (quantity ?acc1) \<le> 2047"
      by (simp add: maxFunc3Quantity_def word_le_nat_alt)
    then have "unat (quantity ?acc1) \<le> unat (quantity acc')"
      using innerRead_quantity [OF m] Cons.prems by simp
    with s Cons.prems show ?thesis by simp
  next
    case False
    with Cons.prems have "innerRead acc i ps = (acc', i')" by simp
    with Cons.IH [of acc i] Cons.prems show ?thesis by simp
  qed
qed

lemma innerRead_blocks:
  assumes "innerRead acc i ps = (acc', i')"
      and "sorted_wrt (\<lambda>a b. register a \<le> register b) (acc # ps)"
      and "unat (quantity acc) \<le> 2047"
      and "\<forall>p\<in>set ps. 1 \<le> unat (quantity p) \<and> unat (quantity p) \<le> 2047"
      and "t \<in> set ps" and "register y = register t"
      and "unat (quantity t) \<le> unat (quantity y)" and "unat (quantity y) \<le> 2047"
  shows "\<not> (register y = register acc' + quantity acc' \<and>
            quantity acc' + quantity y \<le> maxFunc3Quantity)"
  using assms(1-5)
proof (induction ps arbitrary: acc i)
  case Nil
  then show ?case by simp
next
  case (Cons p ps)
  have V: "\<forall>p\<in>set (p # ps). unat (quantity p) \<le> 2047"
    using Cons.prems(4) by simp
  have A: "register acc' = register acc"
    using innerRead_register [OF Cons.prems(1)] .
  have Q: "unat (quantity acc') \<le> 2047" "unat (quantity acc) \<le> unat (quantity acc')"
    using innerRead_quantity [OF Cons.prems(1) Cons.prems(3) V] by simp_all
  have le: "register acc \<le> register y"
    using Cons.prems(2,5) assms(6) by auto
  have goal_nat: "(register y = register acc' + quantity acc' \<and>
              quantity acc' + quantity y \<le> maxFunc3Quantity)
           = (unat (register y) = unat (register acc) + unat (quantity acc') \<and>
              unat (quantity acc') + unat (quantity y) \<le> 2047)"
    using mergeable_read_nat [of acc' y] A Q le assms(8) by simp
  have nat_p: "(register p = register acc + quantity acc \<and>
              quantity acc + quantity p \<le> maxFunc3Quantity)
           = (unat (register p) = unat (register acc) + unat (quantity acc) \<and>
              unat (quantity acc) + unat (quantity p) \<le> 2047)"
    using Cons.prems(2,3,4) by (intro mergeable_read_nat) simp_all
  have qp: "1 \<le> unat (quantity p)" "unat (quantity p) \<le> 2047"
    using Cons.prems(4) by simp_all
  show ?case
  proof (cases "register p = register acc + quantity acc \<and>
                quantity acc + quantity p \<le> maxFunc3Quantity")
    case True
    let ?acc1 = "acc\<lparr>quantity := quantity acc + quantity p\<rparr>"
    have s: "unat (quantity ?acc1) = unat (quantity acc) + unat (quantity p)"
      using Cons.prems(3) qp by (simp add: quantity_sum)
    from True nat_p have n: "unat (register p) = unat (register acc) + unat (quantity acc)"
      "unat (quantity acc) + unat (quantity p) \<le> 2047" by simp_all
    from True Cons.prems(1) have m: "innerRead ?acc1 (i + 1) ps = (acc', i')" by simp
    have V1: "unat (quantity ?acc1) \<le> 2047" using s n by simp
    show ?thesis
    proof (cases "t = p")
      case True
      have "unat (quantity ?acc1) \<le> unat (quantity acc')"
        using innerRead_quantity [OF m V1] V by simp
      with s n qp True assms(6) show ?thesis
        unfolding goal_nat by simp
    next
      case False
      with Cons.prems(5) have t: "t \<in> set ps" by simp
      show ?thesis
      proof (rule Cons.IH [OF m _ V1 _ t])
        show "sorted_wrt (\<lambda>a b. register a \<le> register b) (?acc1 # ps)"
          using Cons.prems(2) by simp
        show "\<forall>p\<in>set ps. 1 \<le> unat (quantity p) \<and> unat (quantity p) \<le> 2047"
          using Cons.prems(4) by simp
      qed
    qed
  next
    case False
    with Cons.prems(1) have m: "innerRead acc i ps = (acc', i')" by simp
    show ?thesis
    proof (cases "t = p")
      case True
      then have ry: "unat (register y) = unat (register p)" using assms(6) by simp
      consider (before) "unat (register p) < unat (register acc) + unat (quantity acc)"
        | (after) "unat (register acc) + unat (quantity acc) < unat (register p)"
        | (full) "unat (register p) = unat (register acc) + unat (quantity acc)"
                 "2047 < unat (quantity acc) + unat (quantity p)"
        using False nat_p by linarith
      then show ?thesis
      proof cases
        case before
        with Q ry show ?thesis unfolding goal_nat by simp
      next
        case after
        have "\<forall>p'\<in>set ps. \<not> (register p' = register acc + quantity acc \<and>
                    quantity acc + quantity p' \<le> maxFunc3Quantity)"
        proof
          fix p' assume p': "p' \<in> set ps"
          then have o: "register acc \<le> register p'" "register p \<le> register p'"
            using Cons.prems(2) by simp_all
          have "(register p' = register acc + quantity acc \<and>
              quantity acc + quantity p' \<le> maxFunc3Quantity)
           = (unat (register p') = unat (register acc) + unat (quantity acc) \<and>
              unat (quantity acc) + unat (quantity p') \<le> 2047)"
            using o(1) Cons.prems(3,4) p' by (intro mergeable_read_nat) simp_all
          moreover have "unat (register p) \<le> unat (register p')"
            using o(2) by (simp add: word_le_nat_alt)
          ultimately show "\<not> (register p' = register acc + quantity acc \<and>
                    quantity acc + quantity p' \<le> maxFunc3Quantity)"
            using after by simp
        qed
        then have "acc' = acc" using m by (simp add: innerRead_none)
        with after ry show ?thesis unfolding goal_nat by simp
      next
        case full
        from innerRead_grows [OF m Cons.prems(3)] Cons.prems(4)
        have "acc' = acc \<or> unat (quantity acc) < unat (quantity acc')" by simp
        then show ?thesis
        proof
          assume "acc' = acc"
          with full True assms(7) show ?thesis unfolding goal_nat by simp
        next
          assume "unat (quantity acc) < unat (quantity acc')"
          with full ry show ?thesis unfolding goal_nat by simp
        qed
      qed
    next
      case False
      with Cons.prems(5) have t: "t \<in> set ps" by simp
      show ?thesis
      proof (rule Cons.IH [OF m _ Cons.prems(3) _ t])
        show "sorted_wrt (\<lambda>a b. register a \<le> register b) (acc # ps)"
          using Cons.prems(2) by simp
        show "\<forall>p\<in>set ps. 1 \<le> unat (quantity p) \<and> unat (quantity p) \<le> 2047"
          using Cons.prems(4) by simp
      qed
    qed
  qed
qed


lemma mergeRead_grown:
  assumes "\<forall>p\<in>set xs. unat (quantity p) \<le> 2047" and "y \<in> set (mergeRead xs)"
  shows "\<exists>t\<in>set xs. register y = register t \<and> unat (quantity t) \<le> unat (quantity y) \<and>
                     unat (quantity y) \<le> 2047"
  using assms
proof (induction xs rule: mergeRead.induct)
  case 1
  then show ?case by simp
next
  case (2 x xs)
  obtain op m where om: "innerRead x 0 xs = (op, m)"
    by (cases "innerRead x 0 xs")
  from "2.prems"(2) om have "y = op \<or> y \<in> set (mergeRead (drop m xs))" by simp
  then show ?case
  proof
    assume "y = op"
    with innerRead_register [OF om] innerRead_quantity [OF om] "2.prems"(1)
    show ?thesis by simp
  next
    assume y: "y \<in> set (mergeRead (drop m xs))"
    have "\<forall>p\<in>set (drop m xs). unat (quantity p) \<le> 2047"
      using "2.prems"(1) by (auto dest: in_set_dropD)
    from "2.IH" [OF om [symmetric] this y]
    show ?thesis by (auto dest: in_set_dropD)
  qed
qed

lemma mergeRead_blocked:
  assumes "sorted_wrt (\<lambda>a b. register a \<le> register b) xs"
      and "\<forall>p\<in>set xs. 1 \<le> unat (quantity p) \<and> unat (quantity p) \<le> 2047"
  shows "sorted_wrt (\<lambda>a b. \<not> (register b = register a + quantity a \<and>
                              quantity a + quantity b \<le> maxFunc3Quantity)) (mergeRead xs)
       \<and> sorted_wrt (\<lambda>a b. register a \<le> register b) (mergeRead xs)"
  using assms
proof (induction xs rule: mergeRead.induct)
  case 1
  then show ?case by simp
next
  case (2 x xs)
  obtain op m where om: "innerRead x 0 xs = (op, m)"
    by (cases "innerRead x 0 xs")
  have V: "\<forall>p\<in>set (drop m xs). unat (quantity p) \<le> 2047"
    using "2.prems"(2) by (auto dest: in_set_dropD)
  have rest: "sorted_wrt (\<lambda>a b. \<not> (register b = register a + quantity a \<and>
                  quantity a + quantity b \<le> maxFunc3Quantity)) (mergeRead (drop m xs))
       \<and> sorted_wrt (\<lambda>a b. register a \<le> register b) (mergeRead (drop m xs))"
  proof (rule "2.IH" [OF om [symmetric]])
    show "sorted_wrt (\<lambda>a b. register a \<le> register b) (drop m xs)"
      using "2.prems"(1) by (simp add: sorted_wrt_drop)
    show "\<forall>p\<in>set (drop m xs). 1 \<le> unat (quantity p) \<and> unat (quantity p) \<le> 2047"
      using "2.prems"(2) by (auto dest: in_set_dropD)
  qed
  have first: "\<not> (register y = register op + quantity op \<and>
                   quantity op + quantity y \<le> maxFunc3Quantity) \<and> register op \<le> register y"
    if y: "y \<in> set (mergeRead (drop m xs))" for y
  proof -
    from mergeRead_grown [OF V y] obtain t where t: "t \<in> set xs" "register y = register t"
      "unat (quantity t) \<le> unat (quantity y)" "unat (quantity y) \<le> 2047"
      by (auto dest: in_set_dropD)
    have "\<not> (register y = register op + quantity op \<and>
              quantity op + quantity y \<le> maxFunc3Quantity)"
      using "2.prems" by (intro innerRead_blocks [OF om _ _ _ t]) simp_all
    moreover have "register op \<le> register y"
      using innerRead_register [OF om] t "2.prems"(1) by simp
    ultimately show ?thesis by simp
  qed
  from om rest first show ?case by simp
qed

lemma mergeRead_fixed:
  "sorted_wrt (\<lambda>a b. \<not> (register b = register a + quantity a \<and>
                          quantity a + quantity b \<le> maxFunc3Quantity)) ys
   \<Longrightarrow> mergeRead ys = ys"
  by (induction ys) (simp_all add: innerRead_none)

lemma optimizeRead_twice:
  assumes "\<forall>p\<in>set r. 1 \<le> unat (quantity p) \<and> unat (quantity p) \<le> 2047"
  shows "optimizeRead (optimizeRead r) = optimizeRead r"
proof -
  let ?xs = "sort_key register r"
  have "sorted (map register ?xs)" by simp
  then have "sorted_wrt (\<lambda>a b. register a \<le> register b) ?xs"
    by (simp add: sorted_map)
  moreover have "\<forall>p\<in>set ?xs. 1 \<le> unat (quantity p) \<and> unat (quantity p) \<le> 2047"
    using assms by simp
  ultimately have b: "sorted_wrt (\<lambda>a b. \<not> (register b = register a + quantity a \<and>
                              quantity a + quantity b \<le> maxFunc3Quantity)) (mergeRead ?xs)"
    and o: "sorted_wrt (\<lambda>a b. register a \<le> register b) (mergeRead ?xs)"
    using mergeRead_blocked [of ?xs] by simp_all
  from o have "sort_key register (mergeRead ?xs) = mergeRead ?xs"
    by (intro sort_key_id_if_sorted) (simp add: sorted_map)
  with b show ?thesis
    by (simp add: optimizeRead_mergeRead mergeRead_fixed)
qed
text \<open>
  C7.  The claim: the optimizer returns its own output unchanged.  A quantity of zero is
  within the ceiling (a \<open>Type\<close> of size 0, a write with an empty payload), but it lets the
  inner loop merge an op that is not the next one.  On \<open>(0, 2)\<close>, \<open>(1, 1)\<close>, \<open>(2, 0)\<close> the
  inner loop passes over \<open>(1, 1)\<close>, merges \<open>(2, 0)\<close> and advances the index by one, so the
  outer loop resumes at \<open>(2, 0)\<close> and emits it again: the first run returns \<open>(0, 2)\<close>,
  \<open>(2, 0)\<close>, and the second run merges these two into \<open>(0, 2)\<close>.  The same happens to the
  three writes that \<open>BatchWrite\<close> converts from payloads of four, two and no bytes.  All
  quantities pass validation.  This is the behaviour shown for C8: the index counts the
  merged ops, not the ops passed over.  (\<open>optimizeRead_twice\<close> above: with every quantity
  at least 1 and at most 2047 the second run of \<open>optimizeRead\<close> changes nothing.)
\<close>

theorem optimize_second_run_differs:
  "readOp_validate \<lparr>register = 0, quantity = 2\<rparr> = None \<and>
   readOp_validate \<lparr>register = 1, quantity = 1\<rparr> = None \<and>
   readOp_validate \<lparr>register = 2, quantity = 0\<rparr> = None \<and>
   optimizeRead [\<lparr>register = 0, quantity = 2\<rparr>, \<lparr>register = 1, quantity = 1\<rparr>,
                 \<lparr>register = 2, quantity = 0\<rparr>]
     = [\<lparr>register = 0, quantity = 2\<rparr>, \<lparr>register = 2, quantity = 0\<rparr>] \<and>
   optimizeRead (optimizeRead [\<lparr>register = 0, quantity = 2\<rparr>, \<lparr>register = 1, quantity = 1\<rparr>,
                               \<lparr>register = 2, quantity = 0\<rparr>])
     = [\<lparr>register = 0, quantity = 2\<rparr>] \<and>
   convertWrites
       [\<lparr>Register = 0, Value = FromBytes \<lparr>ptr = 0, len = 4, cap = 4\<rparr>\<rparr>,
        \<lparr>Register = 1, Value = FromBytes \<lparr>ptr = 4, len = 2, cap = 2\<rparr>\<rparr>,
        \<lparr>Register = 2, Value = FromBytes nil\<rparr>] []
     = Inr [\<lparr>register = 0, quantity = 2, value = \<lparr>ptr = 0, len = 4, cap = 4\<rparr>\<rparr>,
            \<lparr>register = 1, quantity = 1, value = \<lparr>ptr = 4, len = 2, cap = 2\<rparr>\<rparr>,
            \<lparr>register = 2, quantity = 0, value = nil\<rparr>] \<and>
   (case optimizeWrite
           [\<lparr>register = 0, quantity = 2, value = \<lparr>ptr = 0, len = 4, cap = 4\<rparr>\<rparr>,
            \<lparr>register = 1, quantity = 1, value = \<lparr>ptr = 4, len = 2, cap = 2\<rparr>\<rparr>,
            \<lparr>register = 2, quantity = 0, value = nil\<rparr>]
           (memory_of [1, 2, 3, 4, 5, 6]) of
      (first, m1) \<Rightarrow>
        (map (contents m1) first,
         case optimizeWrite first m1 of (second, m2) \<Rightarrow> map (contents m2) second))
     = ([\<lparr>register = 0, quantity = 2, payload = [1, 2, 3, 4]\<rparr>,
         \<lparr>register = 2, quantity = 0, payload = []\<rparr>],
        [\<lparr>register = 0, quantity = 2, payload = [1, 2, 3, 4]\<rparr>]) \<and>
   (case Client_BatchWrite recording
           [\<lparr>Register = 0, Value = FromBytes \<lparr>ptr = 0, len = 4, cap = 4\<rparr>\<rparr>,
            \<lparr>Register = 1, Value = FromBytes \<lparr>ptr = 4, len = 2, cap = 2\<rparr>\<rparr>,
            \<lparr>Register = 2, Value = FromBytes nil\<rparr>]
           None (memory_of [1, 2, 3, 4, 5, 6]) [] of
      (err, sent, m') \<Rightarrow> (err, sent))
     = (None, [(0, 2, [1, 2, 3, 4]), (2, 0, [])])"
  by code_simp

subsection \<open>Payload length\<close>

lemma go_append_len: "go_append m s t = (s', m') \<Longrightarrow> len s' = len s + len t"
  by (auto simp: go_append_def Let_def split: if_splits)

lemma innerWrite_length:
  assumes "innerWrite acc i ps m = (acc', i', m')"
      and "unat (quantity acc) \<le> 123" and "len (value acc) = 2 * unat (quantity acc)"
      and "\<forall>p\<in>set ps. unat (quantity p) \<le> 123 \<and> len (value p) = 2 * unat (quantity p)"
  shows "unat (quantity acc') \<le> 123 \<and> len (value acc') = 2 * unat (quantity acc')"
  using assms
proof (induction ps arbitrary: acc i m)
  case Nil
  then show ?case by simp
next
  case (Cons p ps)
  show ?case
  proof (cases "register p = register acc + quantity acc \<and>
                quantity acc + quantity p \<le> maxFunc16Quantity")
    case True
    obtain v m1 where ga: "go_append m (value acc) (value p) = (v, m1)"
      by (cases "go_append m (value acc) (value p)")
    let ?acc1 = "acc\<lparr>quantity := quantity acc + quantity p, value := v\<rparr>"
    have s: "unat (quantity acc + quantity p) = unat (quantity acc) + unat (quantity p)"
      using Cons.prems by (simp add: quantity_sum_w)
    from True ga Cons.prems(1) have run: "innerWrite ?acc1 (i + 1) ps m1 = (acc', i', m')"
      by simp
    from True have V1: "unat (quantity ?acc1) \<le> 123"
      by (simp add: maxFunc16Quantity_def word_le_nat_alt)
    have L1: "len (value ?acc1) = 2 * unat (quantity ?acc1)"
      using s Cons.prems go_append_len [OF ga] by simp
    show ?thesis
      using Cons.IH [OF run V1 L1] Cons.prems(4) by simp
  next
    case False
    with Cons.prems(1) have "innerWrite acc i ps m = (acc', i', m')" by auto
    with Cons.IH [of acc i m] Cons.prems show ?thesis by simp
  qed
qed

lemma outerWrite_length:
  assumes "outerWrite preopt i opt m = (opt', m')"
      and "\<forall>p\<in>set preopt. unat (quantity p) \<le> 123 \<and> len (value p) = 2 * unat (quantity p)"
      and "\<forall>p\<in>set opt. unat (quantity p) \<le> 123 \<and> len (value p) = 2 * unat (quantity p)"
  shows "\<forall>p\<in>set opt'. unat (quantity p) \<le> 123 \<and> len (value p) = 2 * unat (quantity p)"
  using assms
proof (induction preopt i opt m rule: outerWrite.induct)
  case (1 preopt i opt m)
  show ?case
  proof (cases "i < length preopt")
    case True
    obtain op i' m1 where run: "innerWrite (preopt ! i) i (drop (i + 1) preopt) m = (op, i', m1)"
      by (cases "innerWrite (preopt ! i) i (drop (i + 1) preopt) m") auto
    have hd: "unat (quantity (preopt ! i)) \<le> 123"
             "len (value (preopt ! i)) = 2 * unat (quantity (preopt ! i))"
      using "1.prems"(2) True by simp_all
    have tl: "\<forall>p\<in>set (drop (i + 1) preopt).
                unat (quantity p) \<le> 123 \<and> len (value p) = 2 * unat (quantity p)"
      using "1.prems"(2) by (auto dest: in_set_dropD)
    have op: "unat (quantity op) \<le> 123 \<and> len (value op) = 2 * unat (quantity op)"
      using innerWrite_length [OF run hd tl] .
    have next_run: "outerWrite preopt (i' + 1) (opt @ [op]) m1 = (opt', m')"
      using "1.prems"(1) True run by (subst (asm) outerWrite.simps) simp
    have opt1: "\<forall>p\<in>set (opt @ [op]).
                  unat (quantity p) \<le> 123 \<and> len (value p) = 2 * unat (quantity p)"
      using "1.prems"(3) op by auto
    show ?thesis
      using "1.IH" [OF True run [symmetric] refl next_run "1.prems"(2) opt1] .
  next
    case False
    with "1.prems"(1,3) show ?thesis by (subst (asm) outerWrite.simps) simp
  qed
qed

text \<open>
  C10.  The lists \<open>optimizeWrite\<close> is given hold ops that have passed \<open>validate\<close>
  (\<open>BatchWrite\<close> converts and validates every request before it calls the optimizer).
  Whenever every such op has \<open>len(value) = 2 * quantity\<close>, so has every op of the output:
  each merge adds the quantity of the absorbed op and appends exactly its bytes.  The
  output ops pass \<open>validate\<close> too, and hold as many bytes in memory as their length says.
\<close>

theorem optimizeWrite_keeps_payload_length:
  assumes "\<forall>op\<in>set w. writeOp_validate op = None \<and> len (value op) = 2 * unat (quantity op)"
  shows "\<forall>op\<in>set (fst (optimizeWrite w m)).
           len (value op) = 2 * unat (quantity op) \<and>
           length (load (snd (optimizeWrite w m)) (value op)) = 2 * unat (quantity op) \<and>
           writeOp_validate op = None"
proof -
  obtain opt m' where run: "outerWrite (sort_key register w) 0 [] m = (opt, m')"
    by (cases "outerWrite (sort_key register w) 0 [] m")
  have q: "unat (quantity op) \<le> 123 \<longleftrightarrow> writeOp_validate op = None" for op :: writeOp
    by (auto simp: writeOp_validate_def maxFunc16Quantity_def word_less_nat_alt)
  have "\<forall>p\<in>set (sort_key register w).
          unat (quantity p) \<le> 123 \<and> len (value p) = 2 * unat (quantity p)"
    using assms by (simp add: q)
  then have "\<forall>p\<in>set opt. unat (quantity p) \<le> 123 \<and> len (value p) = 2 * unat (quantity p)"
    by (intro outerWrite_length [OF run]) simp_all
  then show ?thesis
    using run by (simp add: optimizeWrite_def q length_load)
qed

theorem optimizeWrite_keeps_payload_length_witness:
  "writeOp_validate \<lparr>register = 2, quantity = 1, value = \<lparr>ptr = 0, len = 2, cap = 2\<rparr>\<rparr> = None \<and>
   len (value \<lparr>register = 2, quantity = 1, value = \<lparr>ptr = 0, len = 2, cap = 2\<rparr>\<rparr>)
     = 2 * unat (1 :: uint16) \<and>
   writeOp_validate \<lparr>register = 3, quantity = 1, value = \<lparr>ptr = 2, len = 2, cap = 2\<rparr>\<rparr> = None \<and>
   len (value \<lparr>register = 3, quantity = 1, value = \<lparr>ptr = 2, len = 2, cap = 2\<rparr>\<rparr>)
     = 2 * unat (1 :: uint16) \<and>
   map (\<lambda>op. (register op, quantity op, len (value op)))
     (fst (optimizeWrite
        [\<lparr>register = 2, quantity = 1, value = \<lparr>ptr = 0, len = 2, cap = 2\<rparr>\<rparr>,
         \<lparr>register = 3, quantity = 1, value = \<lparr>ptr = 2, len = 2, cap = 2\<rparr>\<rparr>]
        (memory_of [3, 2, 3, 4])))
     = [(2, 2, 4)] \<and>
   list_all (\<lambda>op. len (value op) = 2 * unat (quantity op))
     (fst (optimizeWrite
        [\<lparr>register = 2, quantity = 1, value = \<lparr>ptr = 0, len = 2, cap = 2\<rparr>\<rparr>,
         \<lparr>register = 3, quantity = 1, value = \<lparr>ptr = 2, len = 2, cap = 2\<rparr>\<rparr>]
        (memory_of [3, 2, 3, 4])))"
proof -
  let ?w = "[\<lparr>register = 2, quantity = 1, value = \<lparr>ptr = 0, len = 2, cap = 2\<rparr>\<rparr>,
             \<lparr>register = 3, quantity = 1, value = \<lparr>ptr = 2, len = 2, cap = 2\<rparr>\<rparr>]"
  let ?m = "memory_of [3, 2, 3, 4]"
  have h: "\<forall>op\<in>set ?w. writeOp_validate op = None \<and> len (value op) = 2 * unat (quantity op)"
    by (simp add: writeOp_validate_def maxFunc16Quantity_def)
  have e: "map (\<lambda>op. (register op, quantity op, len (value op))) (fst (optimizeWrite ?w ?m))
             = [(2, 2, 4)]"
    by code_simp
  from optimizeWrite_keeps_payload_length [OF h, of ?m]
  have "list_all (\<lambda>op. len (value op) = 2 * unat (quantity op)) (fst (optimizeWrite ?w ?m))"
    by (simp add: list_all_iff)
  with h e show ?thesis by simp
qed

end
